theory Spec2Isabelle
  imports Complex_Main "HOL-Library.Multiset" "HOL-Library.Char_ord" "HOL-Library.List_Lexorder"
    "HOL-Library.Product_Lexorder" "HOL-Library.Sublist"
begin

section \<open>Python strings\<close>

text \<open>
  A Python \<open>str\<close> is modelled as a \<open>string\<close>: a list of characters, each character a code
  point below 256 (the Latin-1 range), so that \<open>length\<close> is Python's \<open>len\<close>. The methods
  of \<open>str\<close> that \<open>compare.py\<close> calls are written out on that range.
\<close>

definition isspace :: "char \<Rightarrow> bool" where
  \<comment> \<open>The characters \<open>str.split()\<close> and \<open>str.strip()\<close> treat as whitespace.\<close>
  "isspace c = (let n = (of_char c :: nat) in
     (9 \<le> n \<and> n \<le> 13) \<or> (28 \<le> n \<and> n \<le> 32) \<or> n = 133 \<or> n = 160)"

fun split_from :: "string \<Rightarrow> string \<Rightarrow> string list" where
  "split_from cur [] = (if cur = [] then [] else [cur])"
| "split_from cur (c # cs) =
     (if isspace c then (if cur = [] then split_from [] cs else cur # split_from [] cs)
      else split_from (cur @ [c]) cs)"

definition str_split :: "string \<Rightarrow> string list" where
  \<comment> \<open>\<open>s.split()\<close>: the maximal runs of characters that are not whitespace.\<close>
  "str_split s = split_from [] s"

definition str_strip :: "string \<Rightarrow> string" where
  \<comment> \<open>\<open>s.strip()\<close>\<close>
  "str_strip s = rev (dropWhile isspace (rev (dropWhile isspace s)))"

fun str_join :: "string \<Rightarrow> string list \<Rightarrow> string" where
  "str_join sep [] = []"
| "str_join sep [x] = x"
| "str_join sep (x # y # ys) = x @ sep @ str_join sep (y # ys)"

definition lower_char :: "char \<Rightarrow> char" where
  \<comment> \<open>The capital letters below 256 are \<open>A\<close> to \<open>Z\<close> and 192 to 222 without 215.\<close>
  "lower_char c = (let n = (of_char c :: nat) in
     if (65 \<le> n \<and> n \<le> 90) \<or> (192 \<le> n \<and> n \<le> 214) \<or> (216 \<le> n \<and> n \<le> 222)
     then char_of (n + 32) else c)"

definition str_lower :: "string \<Rightarrow> string" where
  \<comment> \<open>\<open>s.lower()\<close>\<close>
  "str_lower s = map lower_char s"

definition nbsp :: char where
  "nbsp = char_of (160 :: nat)"

definition normalize_text :: "string \<Rightarrow> string" where
  \<comment> \<open>The argument is a \<open>str\<close>, so the \<open>None\<close> branch of the source is not a case here.\<close>
  "normalize_text t =
     (let t1 = map (\<lambda>c. if c = nbsp then CHR '' '' else c) t;
          t2 = str_join '' '' (str_split t1)
      in str_lower (str_strip t2))"

section \<open>The libraries\<close>

text \<open>
  \<open>compare.py\<close> calls three functions of libraries that are not part of the repository:
  \<open>rapidfuzz.fuzz.token_sort_ratio\<close>, \<open>difflib.SequenceMatcher.get_opcodes\<close> and
  \<open>rapidfuzz.distance.Levenshtein.distance\<close>. The first two are parameters of the model
  (\<open>tsr\<close> and \<open>opc\<close> below): the theorems on the matcher and the aggregator hold for
  every scorer and every aligner that meets the hypotheses they state. The theorem on
  the word-level differ is about the runs of the library's aligner, which is written
  out below. The edit distance is a mathematical function and is defined here.
\<close>

type_synonym scorer = "string \<Rightarrow> string \<Rightarrow> real"

text \<open>
  An opcode is \<open>(tag, i1, i2, j1, j2)\<close>: the run \<open>a[i1:i2]\<close> of the first sequence against
  the run \<open>b[j1:j2]\<close> of the second.
\<close>

type_synonym opcode = "string \<times> nat \<times> nat \<times> nat \<times> nat"

type_synonym aligner = "string list \<Rightarrow> string list \<Rightarrow> opcode list"

fun levenshtein :: "'a list \<Rightarrow> 'a list \<Rightarrow> nat" where
  \<comment> \<open>Modelled from the spec: \<open>rapidfuzz.distance.Levenshtein.distance\<close> is not in the
      repository; the glossary has it as the minimum number of single-character
      insert/delete/substitute operations to transform one string into another.\<close>
  "levenshtein [] ys = length ys"
| "levenshtein (x # xs) [] = length (x # xs)"
| "levenshtein (x # xs) (y # ys) =
     min (min (levenshtein xs (y # ys) + 1) (levenshtein (x # xs) ys + 1))
         (levenshtein xs ys + (if x = y then 0 else 1))"

subsection \<open>Instances of the two parameters\<close>

text \<open>
  The concrete examples below need a scorer and an aligner, and the word-level differ is
  verified with the aligner it calls. These two follow the libraries: the token sort
  ratio of rapidfuzz, and the opcodes of difflib's \<open>SequenceMatcher(a=a, b=b)\<close>, which
  has no junk predicate and keeps \<open>autojunk\<close> on.
\<close>

fun lcs_length :: "'a list \<Rightarrow> 'a list \<Rightarrow> nat" where
  "lcs_length [] ys = 0"
| "lcs_length (x # xs) [] = 0"
| "lcs_length (x # xs) (y # ys) =
     (if x = y then lcs_length xs ys + 1
      else max (lcs_length xs (y # ys)) (lcs_length (x # xs) ys))"

definition indel_ratio :: "string \<Rightarrow> string \<Rightarrow> real" where
  "indel_ratio s1 s2 =
     (let n = length s1 + length s2
      in if n = 0 then 100
         else 100 * (1 - real (n - 2 * lcs_length s1 s2) / real n))"

definition token_sort_ratio :: scorer where
  \<comment> \<open>Modelled from the spec: \<open>rapidfuzz.fuzz.token_sort_ratio\<close> is not in the repository;
      the spec has it as sorting each string's tokens and measuring the normalized edit
      similarity between the sorted-token strings. The similarity is the one of
      insertions and deletions, \<open>100 * (1 - d / (len1 + len2))\<close>.\<close>
  "token_sort_ratio s1 s2 =
     indel_ratio (str_join '' '' (sort (str_split s1))) (str_join '' '' (sort (str_split s2)))"

definition b2j_get :: "'a list \<Rightarrow> 'a \<Rightarrow> nat list" where
  \<comment> \<open>\<open>b2j.get(elt, [])\<close>: the indices of \<open>elt\<close> in \<open>b\<close>, ascending; with \<open>len(b) \<ge> 200\<close>
      an element that occurs more than \<open>len(b) // 100 + 1\<close> times is left out of \<open>b2j\<close>.\<close>
  "b2j_get b elt =
     (let indices = filter (\<lambda>j. b ! j = elt) [0..<length b]; n = length b
      in if n \<ge> 200 \<and> length indices > n div 100 + 1 then [] else indices)"

definition flm_step :: "(nat \<rightharpoonup> nat) \<Rightarrow> nat \<Rightarrow> nat
    \<Rightarrow> (nat \<rightharpoonup> nat) \<times> nat \<times> nat \<times> nat \<Rightarrow> (nat \<rightharpoonup> nat) \<times> nat \<times> nat \<times> nat" where
  \<comment> \<open>One index \<open>j\<close> of the inner loop of \<open>find_longest_match\<close>:
      \<open>k = newj2len[j] = j2len.get(j - 1, 0) + 1\<close>, and the best match is replaced when
      \<open>k > bestsize\<close>. There is no key \<open>-1\<close>, so \<open>j = 0\<close> reads the default.\<close>
  "flm_step j2len i j st =
     (case st of (newj2len, besti, bestj, bestsize) \<Rightarrow>
        let k = (if j = 0 then 0 else case j2len (j - 1) of None \<Rightarrow> 0 | Some v \<Rightarrow> v) + 1
        in (newj2len(j \<mapsto> k),
            if k > bestsize then (i + 1 - k, j + 1 - k, k) else (besti, bestj, bestsize)))"

fun flm_row :: "(nat \<rightharpoonup> nat) \<Rightarrow> nat \<Rightarrow> nat \<Rightarrow> nat \<Rightarrow> nat list
    \<Rightarrow> (nat \<rightharpoonup> nat) \<times> nat \<times> nat \<times> nat \<Rightarrow> (nat \<rightharpoonup> nat) \<times> nat \<times> nat \<times> nat" where
  \<comment> \<open>\<open>for j in b2j.get(a[i], nothing)\<close>: \<open>continue\<close> below \<open>blo\<close>, \<open>break\<close> from \<open>bhi\<close> on.\<close>
  "flm_row j2len i blo bhi [] st = st"
| "flm_row j2len i blo bhi (j # js) st =
     (if j < blo then flm_row j2len i blo bhi js st
      else if j \<ge> bhi then st
      else flm_row j2len i blo bhi js (flm_step j2len i j st))"

fun flm_rows :: "'a list \<Rightarrow> 'a list \<Rightarrow> nat \<Rightarrow> nat \<Rightarrow> nat list
    \<Rightarrow> (nat \<rightharpoonup> nat) \<times> nat \<times> nat \<times> nat \<Rightarrow> nat \<times> nat \<times> nat" where
  \<comment> \<open>\<open>for i in range(alo, ahi)\<close>, each row with a fresh \<open>newj2len\<close>.\<close>
  "flm_rows a b blo bhi [] (j2len, best) = best"
| "flm_rows a b blo bhi (i # rows) (j2len, best) =
     flm_rows a b blo bhi rows (flm_row j2len i blo bhi (b2j_get b (a ! i)) (Map.empty, best))"

function extend_left :: "'a list \<Rightarrow> 'a list \<Rightarrow> nat \<Rightarrow> nat \<Rightarrow> nat \<times> nat \<times> nat \<Rightarrow> nat \<times> nat \<times> nat" where
  \<comment> \<open>The first \<open>while\<close> loop after the search: the match grows to the left while the
      elements before it agree.\<close>
  "extend_left a b alo blo (besti, bestj, bestsize) =
     (if besti > alo \<and> bestj > blo \<and> a ! (besti - 1) = b ! (bestj - 1)
      then extend_left a b alo blo (besti - 1, bestj - 1, bestsize + 1)
      else (besti, bestj, bestsize))"
  by pat_completeness auto
termination
  by (relation "measure (\<lambda>(a, b, alo, blo, besti, bestj, bestsize). besti)") auto

function extend_right :: "'a list \<Rightarrow> 'a list \<Rightarrow> nat \<Rightarrow> nat \<Rightarrow> nat \<times> nat \<times> nat \<Rightarrow> nat \<times> nat \<times> nat" where
  \<comment> \<open>The second \<open>while\<close> loop: the match grows to the right.\<close>
  "extend_right a b ahi bhi (besti, bestj, bestsize) =
     (if besti + bestsize < ahi \<and> bestj + bestsize < bhi
         \<and> a ! (besti + bestsize) = b ! (bestj + bestsize)
      then extend_right a b ahi bhi (besti, bestj, bestsize + 1)
      else (besti, bestj, bestsize))"
  by pat_completeness auto
termination
  by (relation "measure (\<lambda>(a, b, ahi, bhi, besti, bestj, bestsize). ahi - (besti + bestsize))") auto

definition find_longest_match :: "'a list \<Rightarrow> 'a list \<Rightarrow> nat \<Rightarrow> nat \<Rightarrow> nat \<Rightarrow> nat \<Rightarrow> nat \<times> nat \<times> nat" where
  \<comment> \<open>The two loops that extend a match by junk never run: without a junk predicate
      no element is junk.\<close>
  "find_longest_match a b alo ahi blo bhi =
     extend_right a b ahi bhi
       (extend_left a b alo blo
          (flm_rows a b blo bhi [alo..<ahi] (Map.empty, alo, blo, 0)))"

text \<open>
  The loop of \<open>get_matching_blocks\<close> ends because a match lies inside the range it is
  searched in, so the ranges left and right of it are shorter.
\<close>

definition flm_inv :: "nat \<Rightarrow> nat \<Rightarrow> (nat \<rightharpoonup> nat) \<times> nat \<times> nat \<times> nat \<Rightarrow> bool" where
  "flm_inv alo n st =
     (case st of (m, besti, bestj, bestsize) \<Rightarrow>
        (\<forall>j v. m j = Some v \<longrightarrow> v + alo \<le> n) \<and> alo \<le> besti \<and> besti + bestsize \<le> n)"

lemma flm_step_inv:
  assumes "\<forall>j v. j2len j = Some v \<longrightarrow> v + alo \<le> i" "alo \<le> i" "flm_inv alo (i + 1) st"
  shows "flm_inv alo (i + 1) (flm_step j2len i j st)"
proof -
  obtain m besti bestj bestsize where st: "st = (m, besti, bestj, bestsize)"
    by (metis prod_cases4)
  define k where "k = (if j = 0 then 0 else case j2len (j - 1) of None \<Rightarrow> 0 | Some v \<Rightarrow> v) + 1"
  have kb: "k + alo \<le> i + 1"
    using assms(1,2) by (auto simp: k_def split: option.splits)
  have "flm_step j2len i j st =
      (m(j \<mapsto> k), if k > bestsize then (i + 1 - k, j + 1 - k, k) else (besti, bestj, bestsize))"
    unfolding flm_step_def st k_def by (simp add: Let_def)
  then show ?thesis using assms(3) kb st by (auto simp: flm_inv_def)
qed

lemma flm_row_bounds:
  assumes "\<forall>j v. j2len j = Some v \<longrightarrow> v + alo \<le> i" "alo \<le> i" "flm_inv alo (i + 1) st"
  shows "flm_inv alo (i + 1) (flm_row j2len i blo bhi js st)"
  using assms(3)
proof (induction js arbitrary: st)
  case Nil
  then show ?case by simp
next
  case (Cons j js)
  then show ?case using flm_step_inv[OF assms(1,2)] by simp
qed

lemma flm_rows_bounds:
  assumes "flm_inv alo i (j2len, best)" "alo \<le> i" "i \<le> ahi"
    "flm_rows a b blo bhi [i..<ahi] (j2len, best) = (besti', bestj', bestsize')"
  shows "alo \<le> besti' \<and> besti' + bestsize' \<le> ahi"
  using assms
proof (induction "ahi - i" arbitrary: i j2len best)
  case 0
  then show ?case by (auto simp: flm_inv_def)
next
  case (Suc n)
  then have lt: "i < ahi" by simp
  then have up: "[i..<ahi] = i # [Suc i..<ahi]" by (simp add: upt_conv_Cons)
  obtain m best' where
    row: "flm_row j2len i blo bhi (b2j_get b (a ! i)) (Map.empty, best) = (m, best')"
    by (metis surj_pair)
  have j: "\<forall>j v. j2len j = Some v \<longrightarrow> v + alo \<le> i"
    using Suc.prems(1) by (auto simp: flm_inv_def)
  have "flm_inv alo (i + 1) (Map.empty, best)"
    using Suc.prems(1) by (auto simp: flm_inv_def)
  then have inv: "flm_inv alo (Suc i) (m, best')"
    using flm_row_bounds[OF j Suc.prems(2), of "(Map.empty, best)" blo bhi "b2j_get b (a ! i)"] row
    by simp
  have rest: "flm_rows a b blo bhi [Suc i..<ahi] (m, best') = (besti', bestj', bestsize')"
    using Suc.prems(4) up row by simp
  have n: "n = ahi - Suc i" using Suc.hyps(2) by simp
  show ?case
    using Suc.hyps(1)[OF n inv _ _ rest] Suc.prems(2) lt by simp
qed

declare extend_left.simps [simp del] extend_right.simps [simp del]

lemma extend_left_bounds:
  "alo \<le> fst st \<Longrightarrow> alo \<le> fst (extend_left a b alo blo st) \<and>
     fst (extend_left a b alo blo st) + snd (snd (extend_left a b alo blo st)) = fst st + snd (snd st)"
proof (induction a b alo blo st rule: extend_left.induct)
  case (1 a b alo blo besti bestj bestsize)
  show ?case
  proof (cases "besti > alo \<and> bestj > blo \<and> a ! (besti - 1) = b ! (bestj - 1)")
    case True
    then have "extend_left a b alo blo (besti, bestj, bestsize)
        = extend_left a b alo blo (besti - 1, bestj - 1, bestsize + 1)"
      by (subst extend_left.simps) simp
    moreover have "alo \<le> fst (besti - 1, bestj - 1, bestsize + 1)" using True by auto
    ultimately show ?thesis using 1(1)[OF True] True by simp
  next
    case False
    then have "extend_left a b alo blo (besti, bestj, bestsize) = (besti, bestj, bestsize)"
      by (subst extend_left.simps) auto
    then show ?thesis using 1(2) by simp
  qed
qed

lemma extend_right_bounds:
  "fst st + snd (snd st) \<le> ahi \<Longrightarrow>
     fst (extend_right a b ahi bhi st) = fst st \<and>
     fst (extend_right a b ahi bhi st) + snd (snd (extend_right a b ahi bhi st)) \<le> ahi"
proof (induction a b ahi bhi st rule: extend_right.induct)
  case (1 a b ahi bhi besti bestj bestsize)
  show ?case
  proof (cases "besti + bestsize < ahi \<and> bestj + bestsize < bhi
         \<and> a ! (besti + bestsize) = b ! (bestj + bestsize)")
    case True
    then have "extend_right a b ahi bhi (besti, bestj, bestsize)
        = extend_right a b ahi bhi (besti, bestj, bestsize + 1)"
      by (subst extend_right.simps) simp
    moreover have "fst (besti, bestj, bestsize + 1) + snd (snd (besti, bestj, bestsize + 1)) \<le> ahi"
      using True by auto
    ultimately show ?thesis using 1(1)[OF True] by simp
  next
    case False
    then have "extend_right a b ahi bhi (besti, bestj, bestsize) = (besti, bestj, bestsize)"
      by (subst extend_right.simps) auto
    then show ?thesis using 1(2) by simp
  qed
qed

lemma find_longest_match_bounds:
  assumes "find_longest_match a b alo ahi blo bhi = (i, j, k)" "k \<noteq> 0"
  shows "alo \<le> i \<and> i + k \<le> ahi"
proof (cases "alo \<le> ahi")
  case True
  obtain bi bj bs where r: "flm_rows a b blo bhi [alo..<ahi] (Map.empty, alo, blo, 0) = (bi, bj, bs)"
    by (metis prod_cases3)
  have "flm_inv alo alo (Map.empty, alo, blo, 0)" by (simp add: flm_inv_def)
  then have b0: "alo \<le> bi \<and> bi + bs \<le> ahi"
    using flm_rows_bounds[where alo = alo and i = alo, OF _ _ True r] by simp
  let ?l = "extend_left a b alo blo (bi, bj, bs)"
  have b1: "alo \<le> fst ?l \<and> fst ?l + snd (snd ?l) = bi + bs"
    using extend_left_bounds[of alo "(bi, bj, bs)" a b blo] b0 by simp
  have b2: "fst (extend_right a b ahi bhi ?l) = fst ?l \<and>
      fst (extend_right a b ahi bhi ?l) + snd (snd (extend_right a b ahi bhi ?l)) \<le> ahi"
    using extend_right_bounds[of ?l ahi a b bhi] b0 b1 by simp
  have "extend_right a b ahi bhi ?l = (i, j, k)"
    using assms(1) r by (simp add: find_longest_match_def)
  then show ?thesis using b1 b2 by simp
next
  case False
  then have "find_longest_match a b alo ahi blo bhi = (alo, blo, 0)"
    by (simp add: find_longest_match_def extend_left.simps extend_right.simps)
  then show ?thesis using assms by simp
qed

definition range_weight :: "nat \<times> nat \<times> nat \<times> nat \<Rightarrow> nat" where
  "range_weight r = (case r of (alo, ahi, blo, bhi) \<Rightarrow> 2 * (ahi - alo) + 1)"

lemma gmb_loop_decreases:
  assumes "(i, y) = find_longest_match a b alo ahi blo bhi" "(j, k) = y" "k \<noteq> 0"
  shows "sum_list (map range_weight
           ((if i + k < ahi \<and> j + k < bhi then [(i + k, ahi, j + k, bhi)] else [])
             @ (if alo < i \<and> blo < j then [(alo, i, blo, j)] else []) @ queue))
         < sum_list (map range_weight ((alo, ahi, blo, bhi) # queue))"
proof -
  have "find_longest_match a b alo ahi blo bhi = (i, j, k)"
    using assms(1,2) by simp
  then have "alo \<le> i \<and> i + k \<le> ahi"
    using find_longest_match_bounds assms(3) by blast
  then show ?thesis using assms(3) by (auto simp: range_weight_def)
qed

function gmb_loop :: "'a list \<Rightarrow> 'a list \<Rightarrow> (nat \<times> nat \<times> nat \<times> nat) list \<Rightarrow> (nat \<times> nat \<times> nat) list
    \<Rightarrow> (nat \<times> nat \<times> nat) list" where
  \<comment> \<open>\<open>while queue\<close>: the head of the list is the end of the queue, where \<open>pop()\<close> takes
      and \<open>append\<close> puts.\<close>
  "gmb_loop a b [] matching_blocks = matching_blocks"
| "gmb_loop a b ((alo, ahi, blo, bhi) # queue) matching_blocks =
     (case find_longest_match a b alo ahi blo bhi of
        (i, j, k) \<Rightarrow>
          if k \<noteq> 0 then
            gmb_loop a b
              ((if i + k < ahi \<and> j + k < bhi then [(i + k, ahi, j + k, bhi)] else [])
                @ (if alo < i \<and> blo < j then [(alo, i, blo, j)] else []) @ queue)
              (matching_blocks @ [(i, j, k)])
          else gmb_loop a b queue matching_blocks)"
  by pat_completeness auto
termination
  apply (relation "measure (\<lambda>(a, b, queue, blocks). sum_list (map range_weight queue))")
  subgoal by simp
  subgoal for a b alo ahi blo bhi queue matching_blocks i y j k
    by (simp only: in_measure prod.case) (rule gmb_loop_decreases)
  subgoal premises prems by (simp add: range_weight_def)
  done

declare gmb_loop.simps [simp del]

fun collapse :: "nat \<times> nat \<times> nat \<Rightarrow> (nat \<times> nat \<times> nat) list \<Rightarrow> (nat \<times> nat \<times> nat) list
    \<Rightarrow> (nat \<times> nat \<times> nat) list" where
  \<comment> \<open>The loop that merges adjacent blocks, and the \<open>if k1\<close> after it.\<close>
  "collapse (i1, j1, k1) [] non_adjacent =
     (if k1 \<noteq> 0 then non_adjacent @ [(i1, j1, k1)] else non_adjacent)"
| "collapse (i1, j1, k1) ((i2, j2, k2) # blocks) non_adjacent =
     (if i1 + k1 = i2 \<and> j1 + k1 = j2 then collapse (i1, j1, k1 + k2) blocks non_adjacent
      else collapse (i2, j2, k2) blocks
             (if k1 \<noteq> 0 then non_adjacent @ [(i1, j1, k1)] else non_adjacent))"

definition get_matching_blocks :: "'a list \<Rightarrow> 'a list \<Rightarrow> (nat \<times> nat \<times> nat) list" where
  "get_matching_blocks a b =
     (let la = length a; lb = length b;
          matching_blocks = sort (gmb_loop a b [(0, la, 0, lb)] [])
      in collapse (0, 0, 0) matching_blocks [] @ [(la, lb, 0)])"

fun opcodes_loop :: "nat \<Rightarrow> nat \<Rightarrow> (nat \<times> nat \<times> nat) list \<Rightarrow> opcode list \<Rightarrow> opcode list" where
  \<comment> \<open>\<open>for ai, bj, size in self.get_matching_blocks()\<close>\<close>
  "opcodes_loop i j [] answer = answer"
| "opcodes_loop i j ((ai, bj, sz) # blocks) answer =
     (let tag = (if i < ai \<and> j < bj then ''replace''
                 else if i < ai then ''delete''
                 else if j < bj then ''insert''
                 else []);
          answer = (if tag \<noteq> [] then answer @ [(tag, i, ai, j, bj)] else answer);
          answer = (if sz \<noteq> 0 then answer @ [(''equal'', ai, ai + sz, bj, bj + sz)] else answer)
      in opcodes_loop (ai + sz) (bj + sz) blocks answer)"

definition get_opcodes :: aligner where
  \<comment> \<open>Modelled from the spec: \<open>difflib.SequenceMatcher(a=a, b=b).get_opcodes()\<close> is the
      standard library's, not the repository's; the spec has it as an ordered alignment
      of the two token sequences in runs tagged equal, replace, delete and insert. The
      functions above follow the library: the longest matching block first, then the
      ranges to its left and to its right.\<close>
  "get_opcodes a b = opcodes_loop 0 0 (get_matching_blocks a b) []"

text \<open>
  Invariants of the search, for the proofs: the best match stays inside the range of
  \<open>b\<close> it is searched in, the ranges waiting in the queue lie inside the two sequences,
  and so do the matching blocks.
\<close>

definition flm_jinv :: "nat \<Rightarrow> nat \<Rightarrow> (nat \<rightharpoonup> nat) \<times> nat \<times> nat \<times> nat \<Rightarrow> bool" where
  "flm_jinv blo bhi st =
     (case st of (m, besti, bestj, bestsize) \<Rightarrow>
        (\<forall>j v. m j = Some v \<longrightarrow> v + blo \<le> j + 1) \<and> blo \<le> bestj \<and> bestj + bestsize \<le> bhi)"

definition range_ok :: "nat \<Rightarrow> nat \<Rightarrow> nat \<times> nat \<times> nat \<times> nat \<Rightarrow> bool" where
  "range_ok la lb r =
     (case r of (alo, ahi, blo, bhi) \<Rightarrow> alo \<le> ahi \<and> ahi \<le> la \<and> blo \<le> bhi \<and> bhi \<le> lb)"

definition block_ok :: "nat \<Rightarrow> nat \<Rightarrow> nat \<times> nat \<times> nat \<Rightarrow> bool" where
  "block_ok la lb m = (case m of (i, j, k) \<Rightarrow> i + k \<le> la \<and> j + k \<le> lb)"

text \<open>
  Invariants of the alignment, for the proofs. A block \<open>(i, j, k)\<close> matches when the \<open>k\<close>
  elements of \<open>a\<close> from \<open>i\<close> are the \<open>k\<close> elements of \<open>b\<close> from \<open>j\<close>, and the search
  keeps, for every index of \<open>b\<close> it has recorded, a matching block that ends there. A
  block or a range is taken as the rectangle of index pairs it spans: the ranges waiting
  in the queue and the blocks found lie apart, each before or after the other in both
  sequences at once. \<open>end_pos\<close> is where the loop over the matching blocks stands after
  the last of them.
\<close>

definition block_match :: "'a list \<Rightarrow> 'a list \<Rightarrow> nat \<times> nat \<times> nat \<Rightarrow> bool" where
  "block_match a b m = (case m of (i, j, k) \<Rightarrow> \<forall>t<k. a ! (i + t) = b ! (j + t))"

definition ends_match :: "'a list \<Rightarrow> 'a list \<Rightarrow> nat \<Rightarrow> (nat \<rightharpoonup> nat) \<Rightarrow> bool" where
  "ends_match a b n m =
     (\<forall>j v. m j = Some v \<longrightarrow> v \<le> n \<and> v \<le> j + 1 \<and> (\<forall>t<v. a ! (n - 1 - t) = b ! (j - t)))"

definition flm_minv :: "'a list \<Rightarrow> 'a list \<Rightarrow> nat \<Rightarrow> (nat \<rightharpoonup> nat) \<times> nat \<times> nat \<times> nat \<Rightarrow> bool" where
  "flm_minv a b n st = (case st of (m, best) \<Rightarrow> ends_match a b n m \<and> block_match a b best)"

definition before :: "nat \<times> nat \<times> nat \<times> nat \<Rightarrow> nat \<times> nat \<times> nat \<times> nat \<Rightarrow> bool" where
  "before r s = (case r of (alo, ahi, blo, bhi) \<Rightarrow> case s of (alo', ahi', blo', bhi') \<Rightarrow>
     ahi \<le> alo' \<and> bhi \<le> blo')"

definition apart :: "nat \<times> nat \<times> nat \<times> nat \<Rightarrow> nat \<times> nat \<times> nat \<times> nat \<Rightarrow> bool" where
  "apart r s = (before r s \<or> before s r)"

definition rect_of :: "nat \<times> nat \<times> nat \<Rightarrow> nat \<times> nat \<times> nat \<times> nat" where
  "rect_of m = (case m of (i, j, k) \<Rightarrow> (i, i + k, j, j + k))"

definition inside :: "nat \<times> nat \<times> nat \<times> nat \<Rightarrow> nat \<times> nat \<times> nat \<times> nat \<Rightarrow> bool" where
  "inside r s = (case r of (alo, ahi, blo, bhi) \<Rightarrow> case s of (alo', ahi', blo', bhi') \<Rightarrow>
     alo' \<le> alo \<and> ahi \<le> ahi' \<and> blo' \<le> blo \<and> bhi \<le> bhi')"

definition good_block :: "'a list \<Rightarrow> 'a list \<Rightarrow> nat \<times> nat \<times> nat \<Rightarrow> bool" where
  "good_block a b m = (block_ok (length a) (length b) m \<and> block_match a b m)"

definition block_before :: "nat \<times> nat \<times> nat \<Rightarrow> nat \<times> nat \<times> nat \<Rightarrow> bool" where
  "block_before m n = before (rect_of m) (rect_of n)"

fun end_pos :: "nat \<times> nat \<Rightarrow> (nat \<times> nat \<times> nat) list \<Rightarrow> nat \<times> nat" where
  "end_pos p [] = p"
| "end_pos p ((ai, bj, sz) # blocks) = end_pos (ai + sz, bj + sz) blocks"

section \<open>Similarity and the line matcher\<close>

text \<open>
  A line as \<open>extract_lines_with_bbox\<close> returns it; \<open>compare_pdfs_and_build_pairs\<close> adds
  the key \<open>norm\<close>. Coordinates and scores are real numbers here: the binary
  floating-point numbers of the source are not modelled.
\<close>

record pdf_line =
  page :: int
  line_no :: int
  line_text :: string
  x0 :: real
  y0 :: real
  x1 :: real
  y1 :: real
  line_norm :: "string option"

definition similarity_score :: "scorer \<Rightarrow> string \<Rightarrow> string \<Rightarrow> real" where
  "similarity_score tsr a b =
     (if a = [] \<and> b = [] then 100
      else if a = [] \<or> b = [] then 0
      else tsr a b)"

definition get_norm :: "pdf_line \<Rightarrow> string" where
  \<comment> \<open>\<open>line.get('norm', '')\<close>\<close>
  "get_norm l = (case line_norm l of None \<Rightarrow> [] | Some n \<Rightarrow> n)"

fun near_candidates :: "scorer \<Rightarrow> pdf_line \<Rightarrow> pdf_line list \<Rightarrow> real \<Rightarrow> int \<Rightarrow> (real \<times> pdf_line) list" where
  "near_candidates tsr g [] y_tolerance page_window = []"
| "near_candidates tsr g (ol # ols) y_tolerance page_window =
     (if \<bar>page ol - page g\<bar> > page_window
      then near_candidates tsr g ols y_tolerance page_window
      else if \<bar>y0 ol - y0 g\<bar> > y_tolerance + 5 * of_int \<bar>page ol - page g\<bar>
      then near_candidates tsr g ols y_tolerance page_window
      else (similarity_score tsr (get_norm g) (get_norm ol), ol)
             # near_candidates tsr g ols y_tolerance page_window)"

fun all_candidates :: "scorer \<Rightarrow> pdf_line \<Rightarrow> pdf_line list \<Rightarrow> (real \<times> pdf_line) list" where
  "all_candidates tsr g [] = []"
| "all_candidates tsr g (ol # ols) =
     (similarity_score tsr (get_norm g) (get_norm ol), ol) # all_candidates tsr g ols"

fun max_by_score :: "real \<times> 'a \<Rightarrow> (real \<times> 'a) list \<Rightarrow> real \<times> 'a" where
  \<comment> \<open>\<open>max(candidates, key=lambda x: x[0])\<close> on a non-empty list: the running maximum is
      replaced only by a strictly greater key.\<close>
  "max_by_score best [] = best"
| "max_by_score best (c # cs) = max_by_score (if fst c > fst best then c else best) cs"

definition find_best_match :: "scorer \<Rightarrow> pdf_line \<Rightarrow> pdf_line list \<Rightarrow> real \<Rightarrow> int \<Rightarrow> real \<times> pdf_line option" where
  "find_best_match tsr g orig_lines y_tolerance page_window =
     (let candidates = near_candidates tsr g orig_lines y_tolerance page_window;
          candidates = (if candidates = [] then all_candidates tsr g orig_lines else candidates)
      in case candidates of
           [] \<Rightarrow> (0, None)
         | c # cs \<Rightarrow> (let (s, ol) = max_by_score c cs in (s, Some ol)))"

text \<open>
  The words of the specification for the matcher: the lines near a generated line, the
  pool the best match is taken from, and the score of an original line.
\<close>

definition spatially_near :: "pdf_line \<Rightarrow> real \<Rightarrow> int \<Rightarrow> pdf_line \<Rightarrow> bool" where
  "spatially_near g y_tolerance page_window ol =
     (\<bar>page ol - page g\<bar> \<le> page_window \<and>
      \<bar>y0 ol - y0 g\<bar> \<le> y_tolerance + 5 * of_int \<bar>page ol - page g\<bar>)"

definition line_score :: "scorer \<Rightarrow> pdf_line \<Rightarrow> pdf_line \<Rightarrow> real" where
  "line_score tsr g ol = similarity_score tsr (get_norm g) (get_norm ol)"

definition match_pool :: "pdf_line \<Rightarrow> pdf_line list \<Rightarrow> real \<Rightarrow> int \<Rightarrow> pdf_line list" where
  "match_pool g ols y_tolerance page_window =
     (if filter (spatially_near g y_tolerance page_window) ols = [] then ols
      else filter (spatially_near g y_tolerance page_window) ols)"

definition example_line :: "int \<Rightarrow> int \<Rightarrow> string \<Rightarrow> real \<Rightarrow> pdf_line" where
  \<comment> \<open>A line of the examples: page, number, text and vertical position.\<close>
  "example_line p n t y =
     \<lparr>page = p, line_no = n, line_text = t, x0 = 50, y0 = y, x1 = 500, y1 = y + 10,
      line_norm = Some (normalize_text t)\<rparr>"

section \<open>The word-level differ\<close>

definition slice :: "'a list \<Rightarrow> nat \<Rightarrow> nat \<Rightarrow> 'a list" where
  \<comment> \<open>\<open>xs[i:j]\<close> for indices that are not negative\<close>
  "slice xs i j = drop i (take j xs)"

definition span :: "string \<Rightarrow> string \<Rightarrow> string" where
  \<open>span cls body = ''<span class="error '' @ cls @ ''">'' @ body @ ''</span>''\<close>

definition or_empty :: "string \<Rightarrow> string" where
  \<comment> \<open>\<open>s or "[empty]"\<close>\<close>
  "or_empty s = (if s = [] then ''[empty]'' else s)"

fun diff_loop :: "string list \<Rightarrow> string list \<Rightarrow> opcode list \<Rightarrow> string list \<times> string list
    \<Rightarrow> string list \<times> string list" where
  "diff_loop a_tokens b_tokens [] (a_out, b_out) = (a_out, b_out)"
| "diff_loop a_tokens b_tokens ((tag, i1, i2, j1, j2) # ops) (a_out, b_out) =
     (if tag = ''equal'' then
        diff_loop a_tokens b_tokens ops
          (a_out @ [str_join '' '' (slice a_tokens i1 i2)],
           b_out @ [str_join '' '' (slice b_tokens j1 j2)])
      else if tag = ''replace'' then
        diff_loop a_tokens b_tokens ops
          (a_out @ [span ''replace-generated'' (or_empty (str_join '' '' (slice a_tokens i1 i2)))],
           b_out @ [span ''replace-original'' (or_empty (str_join '' '' (slice b_tokens j1 j2)))])
      else if tag = ''delete'' then
        diff_loop a_tokens b_tokens ops
          (a_out @ [span ''deleted-from-generated'' (str_join '' '' (slice a_tokens i1 i2))], b_out)
      else if tag = ''insert'' then
        diff_loop a_tokens b_tokens ops
          (a_out, b_out @ [span ''added-to-original'' (str_join '' '' (slice b_tokens j1 j2))])
      else diff_loop a_tokens b_tokens ops (a_out, b_out))"

definition word_level_diff_html :: "aligner \<Rightarrow> string \<Rightarrow> string \<Rightarrow> string \<times> string" where
  "word_level_diff_html opc a b =
     (if a = [] \<and> b = [] then ([], [])
      else if a = [] then ([], span ''missing-in-generated'' b)
      else if b = [] then (span ''missing-in-original'' a, [])
      else
        let a_tokens = str_split a;
            b_tokens = str_split b;
            (a_out, b_out) = diff_loop a_tokens b_tokens (opc a_tokens b_tokens) ([], [])
        in (str_join '' '' (filter (\<lambda>s. s \<noteq> []) a_out),
            str_join '' '' (filter (\<lambda>s. s \<noteq> []) b_out)))"

section \<open>The aggregator\<close>

record comparison_row =
  gen_page :: int
  gen_line_no :: int
  gen_text :: string
  gen_html :: string
  orig_page :: "int option"
  orig_line_no :: "int option"
  orig_text :: "string option"
  orig_html :: string
  similarity :: real
  char_edit_distance :: nat
  y_delta :: "real option"
  matched :: bool
  error_type :: string

record comparison_summary =
  gen_lines :: nat
  orig_lines :: nat
  matched_lines :: nat
  char_accuracy :: real
  line_accuracy :: real
  total_char_diffs :: nat
  total_chars :: nat
  matches :: nat
  mismatches :: nat
  no_matches :: nat

text \<open>The variables the loop over the generated lines updates.\<close>

record tally =
  acc_rows :: "comparison_row list"
  acc_total_chars :: nat
  acc_total_diff_chars :: nat
  acc_matched_lines :: nat

type_synonym tie_rule = "real \<Rightarrow> bool"

definition round4 :: "tie_rule \<Rightarrow> real \<Rightarrow> real" where
  \<comment> \<open>\<open>round(x, 4)\<close>: a nearest multiple of \<open>1/10000\<close>. Ratios are reals here. Where the
      exact ratio lies halfway between two multiples, the binary floating-point number
      that the source rounds lies on one side or the other: \<open>up x\<close> says on which, and is
      a parameter of the model. Away from the halfway points the ratio of two counts
      and its floating-point value have the same nearest multiple, for counts below
      \<open>10^11\<close>.\<close>
  "round4 up x =
     (let y = x * 10000; f = \<lfloor>y\<rfloor>; d = y - of_int f
      in of_int (if d < 1 / 2 then f else if d > 1 / 2 then f + 1
                 else if up x then f + 1 else f) / 10000)"

definition set_norm :: "pdf_line \<Rightarrow> pdf_line" where
  \<comment> \<open>\<open>l['norm'] = normalize_text(l['text'])\<close>\<close>
  "set_norm l = l\<lparr>line_norm := Some (normalize_text (line_text l))\<rparr>"

definition compare_line :: "scorer \<Rightarrow> aligner \<Rightarrow> pdf_line list \<Rightarrow> real \<Rightarrow> tally \<Rightarrow> pdf_line \<Rightarrow> tally" where
  \<comment> \<open>The body of the loop over \<open>gen_lines\<close>.\<close>
  "compare_line tsr opc origs similarity_threshold t g =
     (case find_best_match tsr g origs 12 1 of
        (score, Some ol) \<Rightarrow>
          let ed = levenshtein (line_text g) (line_text ol);
              is_matched = (score \<ge> similarity_threshold);
              (a_html, b_html) = word_level_diff_html opc (line_text g) (line_text ol)
          in \<lparr>acc_rows = acc_rows t @
                 [\<lparr>gen_page = page g, gen_line_no = line_no g, gen_text = line_text g,
                   gen_html = a_html,
                   orig_page = Some (page ol), orig_line_no = Some (line_no ol),
                   orig_text = Some (line_text ol), orig_html = b_html,
                   similarity = score, char_edit_distance = ed,
                   y_delta = Some (y0 g - y0 ol), matched = is_matched,
                   error_type = (if is_matched then ''match'' else ''mismatch'')\<rparr>],
               acc_total_chars =
                 acc_total_chars t + max (max (length (line_text g)) (length (line_text ol))) 1,
               acc_total_diff_chars = acc_total_diff_chars t + ed,
               acc_matched_lines = (if is_matched then acc_matched_lines t + 1 else acc_matched_lines t)\<rparr>
      | (score, None) \<Rightarrow>
          \<lparr>acc_rows = acc_rows t @
              [\<lparr>gen_page = page g, gen_line_no = line_no g, gen_text = line_text g,
                gen_html = span ''no-match'' (line_text g),
                orig_page = None, orig_line_no = None, orig_text = None, orig_html = [],
                similarity = 0, char_edit_distance = length (line_text g),
                y_delta = None, matched = False, error_type = ''no_match''\<rparr>],
            acc_total_chars = acc_total_chars t + max (length (line_text g)) 1,
            acc_total_diff_chars = acc_total_diff_chars t + length (line_text g),
            acc_matched_lines = acc_matched_lines t\<rparr>)"

definition compare_pdfs_and_build_pairs ::
    "scorer \<Rightarrow> aligner \<Rightarrow> tie_rule \<Rightarrow> pdf_line list \<Rightarrow> pdf_line list \<Rightarrow> real
      \<Rightarrow> comparison_summary \<times> comparison_row list" where
  \<comment> \<open>The arguments are the lines \<open>extract_lines_with_bbox\<close> returns for the two files;
      the result is the summary and the rows (the data frame holds the rows again).\<close>
  "compare_pdfs_and_build_pairs tsr opc up orig_ls gen_ls similarity_threshold =
     (let origs = map set_norm orig_ls;
          gens = map set_norm gen_ls;
          t = foldl (compare_line tsr opc origs similarity_threshold)
                \<lparr>acc_rows = [], acc_total_chars = 0, acc_total_diff_chars = 0,
                 acc_matched_lines = 0\<rparr> gens;
          char_acc = (if acc_total_chars t \<noteq> 0
                      then 1 - real (acc_total_diff_chars t) / real (acc_total_chars t) else 0);
          line_acc = (if gens \<noteq> [] then real (acc_matched_lines t) / real (length gens) else 0)
      in (\<lparr>gen_lines = length gens, orig_lines = length origs,
           matched_lines = acc_matched_lines t,
           char_accuracy = round4 up char_acc, line_accuracy = round4 up line_acc,
           total_char_diffs = acc_total_diff_chars t, total_chars = acc_total_chars t,
           matches = length (filter (\<lambda>r. error_type r = ''match'') (acc_rows t)),
           mismatches = length (filter (\<lambda>r. error_type r = ''mismatch'') (acc_rows t)),
           no_matches = length (filter (\<lambda>r. error_type r = ''no_match'') (acc_rows t))\<rparr>,
          acc_rows t))"

section \<open>The content comparator\<close>

text \<open>
  A document is what PyMuPDF hands out: its pages, each page the list of entries
  \<open>(x0, y0, x1, y1, word, block_no, line_no, word_no)\<close> of \<open>page.get_text("words")\<close>.
\<close>

type_synonym word_entry = "real \<times> real \<times> real \<times> real \<times> string \<times> nat \<times> nat \<times> nat"

type_synonym document = "word_entry list list"

fun word_of :: "word_entry \<Rightarrow> string" where
  \<comment> \<open>\<open>w[4]\<close>\<close>
  "word_of (wx0, wy0, wx1, wy1, w, block_no, wline_no, word_no) = w"

fun extend_words :: "string list \<Rightarrow> document \<Rightarrow> string list" where
  "extend_words ws [] = ws"
| "extend_words ws (page_words # pages) =
     extend_words (ws @ map word_of (filter (\<lambda>w. str_strip (word_of w) \<noteq> []) page_words)) pages"

definition extract_pdf_words :: "document \<Rightarrow> string list" where
  "extract_pdf_words doc = extend_words [] doc"

definition compare_pdfs_content_only :: "document \<Rightarrow> document \<Rightarrow> bool" where
  "compare_pdfs_content_only pdf1 pdf2 = (extract_pdf_words pdf1 = extract_pdf_words pdf2)"

datatype py_error = ZeroDivisionError

text \<open>
  A \<open>Counter\<close> is a dictionary, and a dictionary keeps its keys in the order of their
  first insertion: an association list with distinct keys in that order.
\<close>

fun counter_incr :: "(string \<times> nat) list \<Rightarrow> string \<Rightarrow> (string \<times> nat) list" where
  "counter_incr [] w = [(w, 1)]"
| "counter_incr ((k, n) # kvs) w =
     (if k = w then (k, n + 1) # kvs else (k, n) # counter_incr kvs w)"

definition Counter :: "string list \<Rightarrow> (string \<times> nat) list" where
  "Counter ws = foldl counter_incr [] ws"

definition counter_get :: "(string \<times> nat) list \<Rightarrow> string \<Rightarrow> nat" where
  \<comment> \<open>\<open>c.get(word, 0)\<close>\<close>
  "counter_get c w = (case map_of c w of None \<Rightarrow> 0 | Some n \<Rightarrow> n)"

fun count_found :: "(string \<times> nat) list \<Rightarrow> (string \<times> nat) list \<Rightarrow> nat \<times> string list
    \<Rightarrow> nat \<times> string list" where
  \<comment> \<open>The loop over \<open>orig_counter.items()\<close>.\<close>
  "count_found gen_counter [] (match_count, not_found_words) = (match_count, not_found_words)"
| "count_found gen_counter ((word, cnt) # items) (match_count, not_found_words) =
     (let found = min cnt (counter_get gen_counter word)
      in count_found gen_counter items
           (match_count + found,
            if found < cnt then not_found_words @ replicate (cnt - found) word
            else not_found_words))"

definition pdf_content_accuracy :: "document \<Rightarrow> document
    \<Rightarrow> py_error + (real \<times> nat \<times> nat \<times> string list)" where
  "pdf_content_accuracy original generated =
     (let orig_words = extract_pdf_words original;
          gen_words = extract_pdf_words generated
      in if orig_words = [] then Inr (0, 0, 0, [])
         else
           let orig_counter = Counter (map str_lower orig_words);
               gen_counter = Counter (map str_lower gen_words);
               (match_count, not_found_words) = count_found gen_counter orig_counter (0, []);
               total = sum_list (map snd orig_counter)
           in if total = 0 then Inl ZeroDivisionError
              else Inr (real match_count / real total * 100, match_count, total, not_found_words))"

section \<open>The words of the specification\<close>

text \<open>
  What the specification says each generated line contributes to the totals, and how it
  is classified; \<open>run_lines\<close> is the loop over the generated lines from its initial
  state.
\<close>

definition line_chars :: "scorer \<Rightarrow> pdf_line list \<Rightarrow> pdf_line \<Rightarrow> nat" where
  "line_chars tsr origs g =
     (case snd (find_best_match tsr g origs 12 1) of
        Some ol \<Rightarrow> max (max (length (line_text g)) (length (line_text ol))) 1
      | None \<Rightarrow> max (length (line_text g)) 1)"

definition line_diffs :: "scorer \<Rightarrow> pdf_line list \<Rightarrow> pdf_line \<Rightarrow> nat" where
  "line_diffs tsr origs g =
     (case snd (find_best_match tsr g origs 12 1) of
        Some ol \<Rightarrow> levenshtein (line_text g) (line_text ol)
      | None \<Rightarrow> length (line_text g))"

definition line_error_type :: "scorer \<Rightarrow> pdf_line list \<Rightarrow> real \<Rightarrow> pdf_line \<Rightarrow> string" where
  "line_error_type tsr origs threshold g =
     (case snd (find_best_match tsr g origs 12 1) of
        Some ol \<Rightarrow> if fst (find_best_match tsr g origs 12 1) \<ge> threshold then ''match'' else ''mismatch''
      | None \<Rightarrow> ''no_match'')"

definition run_lines :: "scorer \<Rightarrow> aligner \<Rightarrow> pdf_line list \<Rightarrow> real \<Rightarrow> pdf_line list \<Rightarrow> tally" where
  "run_lines tsr opc origs threshold gens =
     foldl (compare_line tsr opc origs threshold)
       \<lparr>acc_rows = [], acc_total_chars = 0, acc_total_diff_chars = 0, acc_matched_lines = 0\<rparr> gens"

text \<open>
  A ratio rounded to four decimal places: a multiple of \<open>1/10000\<close> that is nearest to it.
\<close>

definition rounded4 :: "real \<Rightarrow> real \<Rightarrow> bool" where
  "rounded4 x r = (of_int \<lfloor>r * 10000\<rfloor> = r * 10000 \<and> \<bar>r - x\<bar> \<le> 1 / 20000)"

text \<open>The invariant of a comparison row.\<close>

definition row_ok :: "scorer \<Rightarrow> comparison_row \<Rightarrow> bool" where
  "row_ok tsr r =
     ((error_type r = ''no_match'' \<longleftrightarrow> orig_page r = None) \<and>
      (matched r \<longrightarrow> error_type r = ''match'') \<and>
      ((\<forall>a b. 0 \<le> tsr a b \<and> tsr a b \<le> 100) \<longrightarrow> 0 \<le> similarity r \<and> similarity r \<le> 100))"

text \<open>
  The differ in the words of the specification: what a run contributes to each side
  (nothing, or one piece), and the two sides as the pieces of all runs joined by spaces.
  Runs are proper when every equal run and every replace run covers at least one token
  on both sides.
\<close>

definition gen_side :: "string list \<Rightarrow> opcode \<Rightarrow> string list" where
  "gen_side a_tokens run =
     (case run of (tag, i1, i2, j1, j2) \<Rightarrow>
        if tag = ''equal'' then [str_join '' '' (slice a_tokens i1 i2)]
        else if tag = ''replace'' then
          [span ''replace-generated'' (str_join '' '' (slice a_tokens i1 i2))]
        else if tag = ''delete'' then
          [span ''deleted-from-generated'' (str_join '' '' (slice a_tokens i1 i2))]
        else [])"

definition orig_side :: "string list \<Rightarrow> opcode \<Rightarrow> string list" where
  "orig_side b_tokens run =
     (case run of (tag, i1, i2, j1, j2) \<Rightarrow>
        if tag = ''equal'' then [str_join '' '' (slice b_tokens j1 j2)]
        else if tag = ''replace'' then
          [span ''replace-original'' (str_join '' '' (slice b_tokens j1 j2))]
        else if tag = ''insert'' then
          [span ''added-to-original'' (str_join '' '' (slice b_tokens j1 j2))]
        else [])"

definition marked_diff :: "aligner \<Rightarrow> string \<Rightarrow> string \<Rightarrow> string \<times> string" where
  "marked_diff opc a b =
     (let a_tokens = str_split a; b_tokens = str_split b; runs = opc a_tokens b_tokens
      in (str_join '' '' (concat (map (gen_side a_tokens) runs)),
          str_join '' '' (concat (map (orig_side b_tokens) runs))))"

definition proper_runs :: "string list \<Rightarrow> string list \<Rightarrow> opcode list \<Rightarrow> bool" where
  "proper_runs a_tokens b_tokens runs =
     (\<forall>(tag, i1, i2, j1, j2)\<in>set runs.
        tag = ''equal'' \<or> tag = ''replace'' \<longrightarrow>
          slice a_tokens i1 i2 \<noteq> [] \<and> slice b_tokens j1 j2 \<noteq> [])"

text \<open>
  The alignment in the words of the specification. The runs align two token sequences
  when the tokens they cover on either side, read in order, are the whole sequence, and
  every run has the shape of its tag: an equal run covers the same tokens, at least one,
  on both sides; a replace run covers at least one token on each side; a delete run
  covers tokens of the generated side only, and an insert run tokens of the original
  side only. \<open>equal_cover\<close> is the tokens of the equal runs, and \<open>diff_runs\<close> the runs of
  the library's aligner on the tokens of two texts.
\<close>

definition gen_cover :: "string list \<Rightarrow> opcode list \<Rightarrow> string list" where
  "gen_cover a runs = concat (map (\<lambda>(tag, i1, i2, j1, j2). slice a i1 i2) runs)"

definition orig_cover :: "string list \<Rightarrow> opcode list \<Rightarrow> string list" where
  "orig_cover b runs = concat (map (\<lambda>(tag, i1, i2, j1, j2). slice b j1 j2) runs)"

definition run_shape :: "string list \<Rightarrow> string list \<Rightarrow> opcode \<Rightarrow> bool" where
  "run_shape a b run =
     (case run of (tag, i1, i2, j1, j2) \<Rightarrow>
        (tag = ''equal'' \<and> slice a i1 i2 \<noteq> [] \<and> slice a i1 i2 = slice b j1 j2) \<or>
        (tag = ''replace'' \<and> slice a i1 i2 \<noteq> [] \<and> slice b j1 j2 \<noteq> []) \<or>
        (tag = ''delete'' \<and> slice a i1 i2 \<noteq> [] \<and> slice b j1 j2 = []) \<or>
        (tag = ''insert'' \<and> slice a i1 i2 = [] \<and> slice b j1 j2 \<noteq> []))"

definition aligned :: "string list \<Rightarrow> string list \<Rightarrow> opcode list \<Rightarrow> bool" where
  "aligned a b runs =
     (gen_cover a runs = a \<and> orig_cover b runs = b \<and> list_all (run_shape a b) runs)"

definition equal_cover :: "string list \<Rightarrow> opcode list \<Rightarrow> string list" where
  "equal_cover a runs =
     concat (map (\<lambda>(tag, i1, i2, j1, j2). if tag = ''equal'' then slice a i1 i2 else []) runs)"

definition diff_runs :: "string \<Rightarrow> string \<Rightarrow> opcode list" where
  "diff_runs a b = get_opcodes (str_split a) (str_split b)"

text \<open>The lowercased words of a document, in the order of extraction.\<close>

definition lowered_words :: "document \<Rightarrow> string list" where
  "lowered_words doc = map str_lower (extract_pdf_words doc)"

text \<open>Documents and lines of the examples.\<close>

definition example_entry :: "string \<Rightarrow> word_entry" where
  "example_entry w = (72, 700, 100, 712, w, 0, 0, 0)"

definition example_gen :: pdf_line where
  "example_gen = example_line 1 1 ''B  a'' 100"

definition example_origs :: "pdf_line list" where
  "example_origs =
     [example_line 1 1 ''a c'' 300, example_line 1 2 ''a c'' 105,
      example_line 2 1 ''a b'' 110, example_line 1 3 ''A b'' 95]"

definition example_gens :: "pdf_line list" where
  "example_gens = [example_line 1 1 ''ab'' 100, example_line 1 2 ''x y'' 130]"

definition ties_up :: tie_rule where
  "ties_up x = True"

definition ties_down :: tie_rule where
  "ties_down x = False"

definition example_run :: "comparison_summary \<times> comparison_row list" where
  "example_run =
     compare_pdfs_and_build_pairs token_sort_ratio get_opcodes ties_up
       [example_line 1 1 ''abc'' 100] example_gens 75"

section \<open>Properties of the line matcher\<close>

lemma max_by_score_split:
  "\<exists>pre r post. best # cs = pre @ r # post \<and> max_by_score best cs = r \<and>
     (\<forall>p\<in>set pre. fst p < fst r) \<and> (\<forall>p\<in>set post. fst p \<le> fst r)"
proof (induction cs arbitrary: best)
  case Nil
  show ?case by (rule exI[of _ "[]"]) simp
next
  case (Cons c cs)
  show ?case
  proof (cases "fst c > fst best")
    case True
    from Cons.IH[of c] obtain pre r post where
      h: "c # cs = pre @ r # post" "max_by_score c cs = r"
         "\<forall>p\<in>set pre. fst p < fst r" "\<forall>p\<in>set post. fst p \<le> fst r" by blast
    have "c \<in> set (pre @ r # post)" using h(1) by (metis list.set_intros(1))
    then have "fst c \<le> fst r" using h(3,4) by auto
    then have lt: "fst best < fst r" using True by simp
    have e1: "best # c # cs = (best # pre) @ r # post" using h(1) by simp
    have e2: "max_by_score best (c # cs) = r" using h(2) True by simp
    have e3: "\<forall>p\<in>set (best # pre). fst p < fst r" using h(3) lt by simp
    show ?thesis using e1 e2 e3 h(4) by blast
  next
    case False
    from Cons.IH[of best] obtain pre r post where
      h: "best # cs = pre @ r # post" "max_by_score best cs = r"
         "\<forall>p\<in>set pre. fst p < fst r" "\<forall>p\<in>set post. fst p \<le> fst r" by blast
    have e2: "max_by_score best (c # cs) = r" using h(2) False by simp
    show ?thesis
    proof (cases pre)
      case Nil
      then have r: "r = best" "cs = post" using h(1) by auto
      have e1: "best # c # cs = [] @ r # (c # post)" using r by simp
      have e3: "\<forall>p\<in>set (c # post). fst p \<le> fst r" using h(4) False r by auto
      have e4: "\<forall>p\<in>set ([] :: (real \<times> 'a) list). fst p < fst r" by simp
      show ?thesis using e1 e2 e3 e4 by blast
    next
      case (Cons b pre')
      then have b: "b = best" "cs = pre' @ r # post" using h(1) by auto
      have lt: "fst best < fst r" using h(3) Cons b by simp
      have e1: "best # c # cs = (best # c # pre') @ r # post" using b by simp
      have e3: "\<forall>p\<in>set (best # c # pre'). fst p < fst r" using h(3) Cons lt False by auto
      show ?thesis using e1 e2 e3 h(4) by blast
    qed
  qed
qed

lemma near_candidates_filter:
  "near_candidates tsr g ols yt pw =
     map (\<lambda>ol. (line_score tsr g ol, ol)) (filter (spatially_near g yt pw) ols)"
  by (induction ols) (auto simp: spatially_near_def line_score_def)

lemma all_candidates_map:
  "all_candidates tsr g ols = map (\<lambda>ol. (line_score tsr g ol, ol)) ols"
  by (induction ols) (auto simp: line_score_def)

lemma find_best_match_pool:
  "find_best_match tsr g ols yt pw =
     (let m = map (\<lambda>ol. (line_score tsr g ol, ol)) (match_pool g ols yt pw) in
      if m = [] then (0, None)
      else (fst (max_by_score (hd m) (tl m)), Some (snd (max_by_score (hd m) (tl m)))))"
  by (auto simp: find_best_match_def near_candidates_filter all_candidates_map match_pool_def
      Let_def split: list.splits prod.splits)

lemma max_by_score_scored:
  assumes "pool \<noteq> []"
  shows "\<exists>pre ol post. pool = pre @ ol # post \<and>
     max_by_score (hd (map (\<lambda>ol. (f ol, ol)) pool)) (tl (map (\<lambda>ol. (f ol, ol)) pool)) = (f ol, ol) \<and>
     (\<forall>p\<in>set pre. f p < f ol) \<and> (\<forall>p\<in>set post. f p \<le> f ol)"
proof -
  obtain x xs where pool: "pool = x # xs" using assms by (cases pool) auto
  let ?m = "map (\<lambda>ol. (f ol, ol))"
  from max_by_score_split[of "(f x, x)" "?m xs"] obtain pre r post where
    h: "(f x, x) # ?m xs = pre @ r # post" "max_by_score (f x, x) (?m xs) = r"
       "\<forall>p\<in>set pre. fst p < fst r" "\<forall>p\<in>set post. fst p \<le> fst r" by blast
  have "?m pool = pre @ r # post" using h(1) pool by simp
  then obtain pre' ol post' where
    d: "pool = pre' @ ol # post'" "pre = ?m pre'" "r = (f ol, ol)" "post = ?m post'"
    by (auto simp: map_eq_append_conv map_eq_Cons_conv)
  have e1: "\<forall>p\<in>set pre'. f p < f ol" using h(3) d(2,3) by auto
  have e2: "\<forall>p\<in>set post'. f p \<le> f ol" using h(4) d(3,4) by auto
  have e3: "max_by_score (hd (?m pool)) (tl (?m pool)) = (f ol, ol)"
    using h(2) d(3) pool by simp
  show ?thesis using d(1) e1 e2 e3 by blast
qed

text \<open>
  C3: the matcher scores exactly the original lines near the generated line (page distance
  at most the page window, vertical distance at most the tolerance plus five times the
  page distance), or all original lines when none is near; it returns a line of maximal
  score among those, the first one in the order of the original lines when several are
  maximal (every line before it scores strictly less); with no line to score it returns
  \<open>(0, None)\<close>.
\<close>

theorem find_best_match_spec:
  "(match_pool g ols yt pw = [] \<longrightarrow> find_best_match tsr g ols yt pw = (0, None)) \<and>
   (match_pool g ols yt pw \<noteq> [] \<longrightarrow>
      (\<exists>pre ol post. match_pool g ols yt pw = pre @ ol # post \<and>
         find_best_match tsr g ols yt pw = (line_score tsr g ol, Some ol) \<and>
         (\<forall>p\<in>set pre. line_score tsr g p < line_score tsr g ol) \<and>
         (\<forall>p\<in>set post. line_score tsr g p \<le> line_score tsr g ol)))"
proof (intro conjI impI)
  assume "match_pool g ols yt pw = []"
  then show "find_best_match tsr g ols yt pw = (0, None)"
    by (simp add: find_best_match_pool)
next
  assume ne: "match_pool g ols yt pw \<noteq> []"
  let ?m = "map (\<lambda>ol. (line_score tsr g ol, ol)) (match_pool g ols yt pw)"
  from max_by_score_scored[OF ne, of "line_score tsr g"] obtain pre ol post where
    h: "match_pool g ols yt pw = pre @ ol # post"
       "max_by_score (hd ?m) (tl ?m) = (line_score tsr g ol, ol)"
       "\<forall>p\<in>set pre. line_score tsr g p < line_score tsr g ol"
       "\<forall>p\<in>set post. line_score tsr g p \<le> line_score tsr g ol" by blast
  have "find_best_match tsr g ols yt pw = (line_score tsr g ol, Some ol)"
    using h(2) ne by (simp add: find_best_match_pool Let_def)
  then show "\<exists>pre ol post. match_pool g ols yt pw = pre @ ol # post \<and>
         find_best_match tsr g ols yt pw = (line_score tsr g ol, Some ol) \<and>
         (\<forall>p\<in>set pre. line_score tsr g p < line_score tsr g ol) \<and>
         (\<forall>p\<in>set post. line_score tsr g p \<le> line_score tsr g ol)"
    using h(1,3,4) by blast
qed

lemma example_pool:
  "match_pool example_gen example_origs 12 1 =
     [example_line 1 2 ''a c'' 105, example_line 2 1 ''a b'' 110, example_line 1 3 ''A b'' 95]"
  by (simp add: match_pool_def spatially_near_def example_line_def example_gen_def example_origs_def)

lemma example_best:
  "find_best_match token_sort_ratio example_gen example_origs 12 1
     = (100, Some (example_line 2 1 ''a b'' 110))"
  by code_simp

theorem find_best_match_spec_witness:
  "match_pool example_gen example_origs 12 1 \<noteq> [] \<and>
   (\<exists>pre ol post. match_pool example_gen example_origs 12 1 = pre @ ol # post \<and>
         find_best_match token_sort_ratio example_gen example_origs 12 1
           = (line_score token_sort_ratio example_gen ol, Some ol) \<and>
         (\<forall>p\<in>set pre. line_score token_sort_ratio example_gen p < line_score token_sort_ratio example_gen ol) \<and>
         (\<forall>p\<in>set post. line_score token_sort_ratio example_gen p \<le> line_score token_sort_ratio example_gen ol)) \<and>
   find_best_match token_sort_ratio example_gen example_origs 12 1
     = (100, Some (example_line 2 1 ''a b'' 110))"
proof -
  have ne: "match_pool example_gen example_origs 12 1 \<noteq> []" by (simp add: example_pool)
  show ?thesis
    using ne find_best_match_spec[of example_gen example_origs 12 1 token_sort_ratio] example_best
    by blast
qed

text \<open>
  C8: the similarity of two empty strings is 100, and the similarity of an empty string
  and a non-empty one is 0, whichever side is empty.
\<close>

theorem similarity_score_empty:
  "similarity_score tsr [] [] = 100 \<and>
   (a \<noteq> [] \<longrightarrow> similarity_score tsr a [] = 0 \<and> similarity_score tsr [] a = 0)"
  by (simp add: similarity_score_def)

theorem similarity_score_empty_witness:
  "''x'' \<noteq> [] \<and> similarity_score token_sort_ratio ''x'' [] = 0 \<and>
   similarity_score token_sort_ratio [] ''x'' = 0 \<and> similarity_score token_sort_ratio [] [] = 100"
  using similarity_score_empty[of token_sort_ratio "''x''"] by simp

lemma match_pool_empty: "match_pool g ols yt pw = [] \<longleftrightarrow> ols = []"
  by (auto simp: match_pool_def)

lemma match_pool_subset: "set (match_pool g ols yt pw) \<subseteq> set ols"
  by (auto simp: match_pool_def)

lemma find_best_match_Some:
  assumes "find_best_match tsr g ols yt pw = (s, Some ol)"
  shows "s = line_score tsr g ol \<and> ol \<in> set ols"
proof (cases "match_pool g ols yt pw = []")
  case True
  then show ?thesis using assms by (simp add: find_best_match_pool)
next
  case False
  let ?m = "map (\<lambda>ol. (line_score tsr g ol, ol)) (match_pool g ols yt pw)"
  from max_by_score_scored[OF False, of "line_score tsr g"] obtain pre ol' post where
    h: "match_pool g ols yt pw = pre @ ol' # post"
       "max_by_score (hd ?m) (tl ?m) = (line_score tsr g ol', ol')" by blast
  have "find_best_match tsr g ols yt pw = (line_score tsr g ol', Some ol')"
    using h(2) False by (simp add: find_best_match_pool Let_def)
  moreover have "ol' \<in> set ols" using h(1) match_pool_subset[of g ols yt pw] by auto
  ultimately show ?thesis using assms by simp
qed

lemma similarity_score_range:
  assumes "\<forall>a b. 0 \<le> tsr a b \<and> tsr a b \<le> 100"
  shows "0 \<le> similarity_score tsr a b \<and> similarity_score tsr a b \<le> 100"
  using assms by (simp add: similarity_score_def)

text \<open>
  C4: with no original lines the matcher returns \<open>(0, None)\<close>; with at least one it
  returns one of them; so it returns \<open>None\<close> exactly when there are no original lines.
\<close>

theorem find_best_match_none:
  "find_best_match tsr g [] yt pw = (0, None) \<and>
   (ols \<noteq> [] \<longrightarrow> (\<exists>s ol. find_best_match tsr g ols yt pw = (s, Some ol) \<and> ol \<in> set ols)) \<and>
   (snd (find_best_match tsr g ols yt pw) = None \<longleftrightarrow> ols = [])"
proof -
  have e: "find_best_match tsr g [] yt pw = (0, None)"
    by (simp add: find_best_match_def)
  have s: "\<exists>s ol. find_best_match tsr g ols yt pw = (s, Some ol) \<and> ol \<in> set ols" if "ols \<noteq> []"
  proof -
    have ne: "match_pool g ols yt pw \<noteq> []" using that by (simp add: match_pool_empty)
    let ?m = "map (\<lambda>ol. (line_score tsr g ol, ol)) (match_pool g ols yt pw)"
    from max_by_score_scored[OF ne, of "line_score tsr g"] obtain pre ol post where
      h: "match_pool g ols yt pw = pre @ ol # post"
         "max_by_score (hd ?m) (tl ?m) = (line_score tsr g ol, ol)" by blast
    have "find_best_match tsr g ols yt pw = (line_score tsr g ol, Some ol)"
      using h(2) ne by (simp add: find_best_match_pool Let_def)
    moreover have "ol \<in> set ols" using h(1) match_pool_subset[of g ols yt pw] by auto
    ultimately show ?thesis by blast
  qed
  show ?thesis
  proof (cases "ols = []")
    case True
    then show ?thesis using e by simp
  next
    case False
    then show ?thesis using e s[OF False] by auto
  qed
qed

theorem find_best_match_none_witness:
  "example_origs \<noteq> [] \<and>
   (\<exists>s ol. find_best_match token_sort_ratio example_gen example_origs 12 1 = (s, Some ol)
      \<and> ol \<in> set example_origs) \<and>
   find_best_match token_sort_ratio example_gen [] 12 1 = (0, None)"
proof -
  have ne: "example_origs \<noteq> []" by (simp add: example_origs_def)
  show ?thesis
    using ne find_best_match_none[of token_sort_ratio example_gen 12 1 example_origs] by blast
qed

section \<open>Properties of the content comparator\<close>

lemma extend_words_concat:
  "extend_words ws doc =
     ws @ filter (\<lambda>w. str_strip w \<noteq> []) (map word_of (concat doc))"
  by (induction doc arbitrary: ws) (auto simp: filter_map comp_def)

lemma extract_pdf_words_concat:
  "extract_pdf_words doc = filter (\<lambda>w. str_strip w \<noteq> []) (map word_of (concat doc))"
  by (simp add: extract_pdf_words_def extend_words_concat)

lemma counter_get_incr:
  "counter_get (counter_incr c w) w' = counter_get c w' + (if w = w' then 1 else 0)"
  by (induction c w rule: counter_incr.induct) (auto simp: counter_get_def)

lemma counter_keys_incr:
  "fst ` set (counter_incr c w) = insert w (fst ` set c)"
  by (induction c w rule: counter_incr.induct) auto

lemma counter_distinct_incr:
  "distinct (map fst c) \<Longrightarrow> distinct (map fst (counter_incr c w))"
proof (induction c w rule: counter_incr.induct)
  case (1 w)
  then show ?case by simp
next
  case (2 k n kvs w)
  then show ?case using counter_keys_incr[of kvs w] by auto
qed

lemma counter_total_incr:
  "sum_list (map snd (counter_incr c w)) = sum_list (map snd c) + 1"
  by (induction c w rule: counter_incr.induct) auto

lemma counter_fold:
  "counter_get (foldl counter_incr c ws) w = counter_get c w + count_list ws w"
  "fst ` set (foldl counter_incr c ws) = fst ` set c \<union> set ws"
  "distinct (map fst c) \<Longrightarrow> distinct (map fst (foldl counter_incr c ws))"
  "sum_list (map snd (foldl counter_incr c ws)) = sum_list (map snd c) + length ws"
  by (induction ws arbitrary: c)
     (auto simp: counter_get_incr counter_keys_incr counter_distinct_incr counter_total_incr)

lemma Counter_props:
  "counter_get (Counter ws) w = count_list ws w"
  "fst ` set (Counter ws) = set ws"
  "distinct (map fst (Counter ws))"
  "sum_list (map snd (Counter ws)) = length ws"
proof -
  have "counter_get [] w = 0" by (simp add: counter_get_def)
  then show "counter_get (Counter ws) w = count_list ws w"
    by (simp add: Counter_def counter_fold(1))
qed (simp_all add: Counter_def counter_fold)

lemma Counter_entry:
  assumes "(w, n) \<in> set (Counter ws)"
  shows "n = count_list ws w"
proof -
  have "map_of (Counter ws) w = Some n"
    using assms Counter_props(3) by simp
  then have "counter_get (Counter ws) w = n" by (simp add: counter_get_def)
  then show ?thesis by (simp add: Counter_props(1))
qed

lemma Counter_items:
  "Counter ws = map (\<lambda>w. (w, count_list ws w)) (map fst (Counter ws))"
proof -
  have "\<forall>e\<in>set (Counter ws). e = (fst e, count_list ws (fst e))"
    using Counter_entry by (metis prod.collapse)
  then have "map (\<lambda>e. (fst e, count_list ws (fst e))) (Counter ws) = map (\<lambda>e. e) (Counter ws)"
    by (intro map_cong) auto
  then show ?thesis by (simp add: comp_def)
qed

lemma count_found_sum:
  "count_found gc items (mc, nf) =
     (mc + sum_list (map (\<lambda>(w, n). min n (counter_get gc w)) items),
      nf @ concat (map (\<lambda>(w, n). replicate (n - min n (counter_get gc w)) w) items))"
  by (induction items arbitrary: mc nf) (auto simp: Let_def)

lemma matched_sum:
  "sum_list (map (\<lambda>(w, n). min n (counter_get (Counter gw) w)) (Counter ow))
     = (\<Sum>w\<in>set ow. min (count_list ow w) (count_list gw w))"
proof -
  let ?keys = "map fst (Counter ow)"
  have "sum_list (map (\<lambda>(w, n). min n (counter_get (Counter gw) w)) (Counter ow))
      = sum_list (map (\<lambda>(w, n). min n (counter_get (Counter gw) w))
          (map (\<lambda>w. (w, count_list ow w)) ?keys))"
    using Counter_items[of ow] by simp
  also have "\<dots> = sum_list (map (\<lambda>w. min (count_list ow w) (count_list gw w)) ?keys)"
    by (simp add: comp_def Counter_props(1))
  also have "\<dots> = (\<Sum>w\<in>set ?keys. min (count_list ow w) (count_list gw w))"
    using Counter_props(3)[of ow] by (rule sum_list_distinct_conv_sum_set)
  finally show ?thesis by (simp add: Counter_props(2))
qed

lemma count_concat_replicate:
  "distinct keys \<Longrightarrow>
   count (mset (concat (map (\<lambda>w. replicate (f w) w) keys))) x = (if x \<in> set keys then f x else 0)"
  by (induction keys) auto

lemma missing_mset:
  "mset (concat (map (\<lambda>(w, n). replicate (n - min n (counter_get (Counter gw) w)) w) (Counter ow)))
     = mset ow - mset gw"
proof -
  let ?keys = "map fst (Counter ow)"
  let ?f = "\<lambda>w. count_list ow w - min (count_list ow w) (count_list gw w)"
  have "concat (map (\<lambda>(w, n). replicate (n - min n (counter_get (Counter gw) w)) w) (Counter ow))
      = concat (map (\<lambda>(w, n). replicate (n - min n (counter_get (Counter gw) w)) w)
          (map (\<lambda>w. (w, count_list ow w)) ?keys))"
    using Counter_items[of ow] by simp
  also have "\<dots> = concat (map (\<lambda>w. replicate (?f w) w) ?keys)"
    by (simp add: comp_def Counter_props(1))
  finally have e: "concat (map (\<lambda>(w, n). replicate (n - min n (counter_get (Counter gw) w)) w) (Counter ow))
      = concat (map (\<lambda>w. replicate (?f w) w) ?keys)" .
  show ?thesis
  proof (rule multiset_eqI)
    fix x
    have "count (mset (concat (map (\<lambda>w. replicate (?f w) w) ?keys))) x
        = (if x \<in> set ?keys then ?f x else 0)"
      using Counter_props(3)[of ow] by (rule count_concat_replicate)
    also have "\<dots> = count (mset ow - mset gw) x"
      by (auto simp: Counter_props(2) count_list_0_iff count_mset)
    finally show "count (mset (concat (map (\<lambda>(w, n). replicate (n - min n (counter_get (Counter gw) w)) w) (Counter ow)))) x
        = count (mset ow - mset gw) x"
      using e by simp
  qed
qed

lemma pdf_content_accuracy_unfold:
  assumes "extract_pdf_words original \<noteq> []"
  shows "pdf_content_accuracy original generated =
     Inr (real (\<Sum>w\<in>set (lowered_words original).
                  min (count_list (lowered_words original) w) (count_list (lowered_words generated) w))
            / real (length (lowered_words original)) * 100,
          (\<Sum>w\<in>set (lowered_words original).
                  min (count_list (lowered_words original) w) (count_list (lowered_words generated) w)),
          length (lowered_words original),
          concat (map (\<lambda>(w, n). replicate (n - min n (counter_get (Counter (lowered_words generated)) w)) w)
                    (Counter (lowered_words original))))"
proof -
  have total: "sum_list (map snd (Counter (map str_lower (extract_pdf_words original))))
      = length (extract_pdf_words original)"
    by (simp add: Counter_props(4))
  have pos: "length (extract_pdf_words original) \<noteq> 0" using assms by simp
  show ?thesis
    unfolding pdf_content_accuracy_def Let_def lowered_words_def count_found_sum matched_sum total
    using assms pos by simp
qed

text \<open>
  C7: when the original document has at least one word, the result is not an error; the
  match count is the sum, over the distinct lowercased words of the original, of the
  smaller of the word's counts in the two documents; the total is the number of words of
  the original; the percentage is the match count over the total, times 100; and the
  missing words hold each word once for each of its occurrences that is not matched.
  For the original \<open>a, A, b\<close> and the generated \<open>a, b, B\<close> that is two of three words,
  with one \<open>a\<close> missing.
\<close>

theorem pdf_content_accuracy_counts:
  assumes "extract_pdf_words original \<noteq> []"
  shows "\<exists>missing_words.
     pdf_content_accuracy original generated =
       Inr (real (\<Sum>w\<in>set (lowered_words original).
                    min (count_list (lowered_words original) w) (count_list (lowered_words generated) w))
              / real (length (lowered_words original)) * 100,
            (\<Sum>w\<in>set (lowered_words original).
                    min (count_list (lowered_words original) w) (count_list (lowered_words generated) w)),
            length (lowered_words original),
            missing_words) \<and>
     mset missing_words = mset (lowered_words original) - mset (lowered_words generated)"
  using pdf_content_accuracy_unfold[OF assms] missing_mset by blast

theorem pdf_content_accuracy_counts_witness:
  "extract_pdf_words [[example_entry ''a'', example_entry ''A''], [example_entry ''b'']] \<noteq> [] \<and>
   pdf_content_accuracy [[example_entry ''a'', example_entry ''A''], [example_entry ''b'']]
                        [[example_entry ''a'', example_entry ''b'', example_entry ''B'']]
     = Inr (200 / 3, 2, 3, [''a''])"
proof -
  have ne: "extract_pdf_words [[example_entry ''a'', example_entry ''A''], [example_entry ''b'']] \<noteq> []"
    by (simp add: extract_pdf_words_def example_entry_def str_strip_def isspace_def)
  have v: "pdf_content_accuracy [[example_entry ''a'', example_entry ''A''], [example_entry ''b'']]
                        [[example_entry ''a'', example_entry ''b'', example_entry ''B'']]
     = Inr (200 / 3, 2, 3, [''a''])"
    by code_simp
  show ?thesis
    using ne v pdf_content_accuracy_counts[OF ne,
        of "[[example_entry ''a'', example_entry ''b'', example_entry ''B'']]"]
    by blast
qed

text \<open>
  C10: when no word is extracted from the original document the result is
  \<open>(0.0, 0, 0, [])\<close> whatever the generated document is, and for no pair of documents does
  the division fail.
\<close>

theorem pdf_content_accuracy_empty:
  "(extract_pdf_words original = [] \<longrightarrow> pdf_content_accuracy original generated = Inr (0, 0, 0, [])) \<and>
   pdf_content_accuracy original generated \<noteq> Inl ZeroDivisionError"
proof (cases "extract_pdf_words original = []")
  case True
  then show ?thesis by (simp add: pdf_content_accuracy_def)
next
  case False
  then show ?thesis using pdf_content_accuracy_unfold[OF False] by simp
qed

theorem pdf_content_accuracy_empty_witness:
  "extract_pdf_words [[example_entry ''  '']] = [] \<and>
   pdf_content_accuracy [[example_entry ''  '']] [[example_entry ''a'']] = Inr (0, 0, 0, [])"
proof -
  have e: "extract_pdf_words [[example_entry ''  '']] = []"
    by (simp add: extract_pdf_words_def example_entry_def str_strip_def isspace_def)
  show ?thesis
    using e pdf_content_accuracy_empty[of "[[example_entry ''  '']]" "[[example_entry ''a'']]"]
    by blast
qed

text \<open>
  The claim C1 as the specification has it, that the comparator holds exactly when the
  multisets of lowercased words are equal, fails for two documents with the same words
  in another order.
\<close>

theorem compare_pdfs_content_only_multiset_counterexample:
  "\<not> (compare_pdfs_content_only [[example_entry ''a'', example_entry ''b'']]
                                  [[example_entry ''b'', example_entry ''a'']]
      \<longleftrightarrow> mset (lowered_words [[example_entry ''a'', example_entry ''b'']])
          = mset (lowered_words [[example_entry ''b'', example_entry ''a'']]))"
  by (simp add: compare_pdfs_content_only_def lowered_words_def extract_pdf_words_def
      example_entry_def str_strip_def isspace_def str_lower_def lower_char_def)

text \<open>
  C1, amended: the comparator holds exactly when the two documents have the same sequence
  of words that are not blank, the pages read one after the other: the same words, in
  the same case and the same order. Equal multisets of lowercased words follow from
  that, and do not imply it.
\<close>

theorem compare_pdfs_content_only_sequence:
  "(compare_pdfs_content_only pdf1 pdf2 \<longleftrightarrow>
      filter (\<lambda>w. str_strip w \<noteq> []) (map word_of (concat pdf1))
        = filter (\<lambda>w. str_strip w \<noteq> []) (map word_of (concat pdf2))) \<and>
   (compare_pdfs_content_only pdf1 pdf2 \<longrightarrow>
      mset (lowered_words pdf1) = mset (lowered_words pdf2))"
  by (auto simp: compare_pdfs_content_only_def extract_pdf_words_concat lowered_words_def)

theorem compare_pdfs_content_only_sequence_witness:
  "compare_pdfs_content_only [[example_entry ''a'', example_entry ''  ''], [example_entry ''B'']]
                             [[example_entry ''a'', example_entry ''B'']] \<and>
   mset (lowered_words [[example_entry ''a'', example_entry ''  ''], [example_entry ''B'']])
     = mset (lowered_words [[example_entry ''a'', example_entry ''B'']])"
proof -
  have c: "compare_pdfs_content_only [[example_entry ''a'', example_entry ''  ''], [example_entry ''B'']]
                             [[example_entry ''a'', example_entry ''B'']]"
    by (simp add: compare_pdfs_content_only_def extract_pdf_words_def example_entry_def
        str_strip_def isspace_def)
  show ?thesis
    using c compare_pdfs_content_only_sequence[of
        "[[example_entry ''a'', example_entry ''  ''], [example_entry ''B'']]"
        "[[example_entry ''a'', example_entry ''B'']]"]
    by blast
qed

section \<open>Properties of the aggregator\<close>

lemma levenshtein_le_max: "levenshtein xs ys \<le> max (length xs) (length ys)"
proof (induction xs ys rule: levenshtein.induct)
  case (3 x xs y ys)
  have "levenshtein (x # xs) (y # ys) \<le> levenshtein xs ys + 1" by (simp add: min_def)
  also have "\<dots> \<le> max (length xs) (length ys) + 1" using 3(3) by simp
  finally show ?case by simp
qed simp_all

lemma compare_line_fields:
  "acc_total_chars (compare_line tsr opc origs thr t g) = acc_total_chars t + line_chars tsr origs g"
  "acc_total_diff_chars (compare_line tsr opc origs thr t g) = acc_total_diff_chars t + line_diffs tsr origs g"
  "acc_matched_lines (compare_line tsr opc origs thr t g) =
     acc_matched_lines t + (if line_error_type tsr origs thr g = ''match'' then 1 else 0)"
  "map error_type (acc_rows (compare_line tsr opc origs thr t g)) =
     map error_type (acc_rows t) @ [line_error_type tsr origs thr g]"
  by (auto simp: compare_line_def line_chars_def line_diffs_def line_error_type_def Let_def
      split: prod.splits option.splits)

lemma foldl_compare_line_fields:
  "acc_total_chars (foldl (compare_line tsr opc origs thr) t gens)
     = acc_total_chars t + sum_list (map (line_chars tsr origs) gens)"
  "acc_total_diff_chars (foldl (compare_line tsr opc origs thr) t gens)
     = acc_total_diff_chars t + sum_list (map (line_diffs tsr origs) gens)"
  "acc_matched_lines (foldl (compare_line tsr opc origs thr) t gens)
     = acc_matched_lines t + length (filter (\<lambda>g. line_error_type tsr origs thr g = ''match'') gens)"
  "map error_type (acc_rows (foldl (compare_line tsr opc origs thr) t gens))
     = map error_type (acc_rows t) @ map (line_error_type tsr origs thr) gens"
  by (induction gens arbitrary: t) (simp_all add: compare_line_fields)

lemma line_diffs_le_chars: "line_diffs tsr origs g \<le> line_chars tsr origs g"
proof (cases "snd (find_best_match tsr g origs 12 1)")
  case None
  then show ?thesis by (simp add: line_diffs_def line_chars_def)
next
  case (Some ol)
  have "levenshtein (line_text g) (line_text ol) \<le> max (length (line_text g)) (length (line_text ol))"
    by (rule levenshtein_le_max)
  then show ?thesis using Some by (simp add: line_diffs_def line_chars_def)
qed

lemma round4_cases:
  obtains k :: int where "round4 up x = of_int k / 10000" "\<bar>of_int k - x * 10000\<bar> \<le> 1 / 2"
proof -
  define f where "f = \<lfloor>x * 10000\<rfloor>"
  define k where "k = (if x * 10000 - of_int f < 1 / 2 then f
                       else if x * 10000 - of_int f > 1 / 2 then f + 1
                       else if up x then f + 1 else f)"
  have r: "round4 up x = of_int k / 10000" by (simp add: round4_def Let_def f_def k_def)
  have lo: "of_int f \<le> x * 10000" and hi: "x * 10000 < of_int f + 1"
    by (simp_all add: f_def)
  have "\<bar>of_int k - x * 10000\<bar> \<le> 1 / 2"
    using lo hi by (auto simp: k_def abs_if)
  then show ?thesis using r that by blast
qed

lemma round4_rounded: "rounded4 x (round4 up x)"
proof -
  obtain k :: int where k: "round4 up x = of_int k / 10000" "\<bar>of_int k - x * 10000\<bar> \<le> 1 / 2"
    by (rule round4_cases)
  have "- (1 / 2) \<le> of_int k - x * 10000" "of_int k - x * 10000 \<le> 1 / 2"
    using k(2) by linarith+
  then have "- (1 / 20000) \<le> of_int k / 10000 - x" "of_int k / 10000 - x \<le> 1 / 20000"
    by linarith+
  then have "\<bar>of_int k / 10000 - x\<bar> \<le> 1 / 20000" by linarith
  then have "\<bar>round4 up x - x\<bar> \<le> 1 / 20000" by (simp only: k(1))
  moreover have "of_int \<lfloor>round4 up x * 10000\<rfloor> = round4 up x * 10000"
    using k(1) by simp
  ultimately show ?thesis by (simp only: rounded4_def simp_thms)
qed

lemma round4_unit: assumes "0 \<le> x" "x \<le> 1" shows "0 \<le> round4 up x \<and> round4 up x \<le> 1"
proof -
  obtain k :: int where k: "round4 up x = of_int k / 10000" "\<bar>of_int k - x * 10000\<bar> \<le> 1 / 2"
    by (rule round4_cases)
  have "- (1 / 2) \<le> of_int k - x * 10000" "of_int k - x * 10000 \<le> 1 / 2"
    using k(2) by linarith+
  then have "- 1 < (of_int k :: real)" "(of_int k :: real) < 10001"
    using assms by linarith+
  then have "- 1 < k" "k < 10001" by linarith+
  then have "0 \<le> k \<and> k \<le> 10000" by simp
  then show ?thesis using k(1) by simp
qed

lemma round4_tie_example:
  "round4 ties_up (1 - 7 / 160) = 9563 / 10000 \<and> round4 ties_down (1 - 7 / 160) = 9562 / 10000"
  by (simp add: round4_def ties_up_def ties_down_def)

text \<open>
  C2: for every pair of line sets, every scorer, every aligner and every threshold, the
  character accuracy and the line accuracy of the summary lie between 0 and 1: the edit
  distance of two texts is at most the length of the longer one, so the differing
  characters never exceed the total.
\<close>

theorem accuracies_in_unit_interval:
  "0 \<le> char_accuracy (fst (compare_pdfs_and_build_pairs tsr opc up orig_ls gen_ls threshold)) \<and>
   char_accuracy (fst (compare_pdfs_and_build_pairs tsr opc up orig_ls gen_ls threshold)) \<le> 1 \<and>
   0 \<le> line_accuracy (fst (compare_pdfs_and_build_pairs tsr opc up orig_ls gen_ls threshold)) \<and>
   line_accuracy (fst (compare_pdfs_and_build_pairs tsr opc up orig_ls gen_ls threshold)) \<le> 1"
proof -
  let ?origs = "map set_norm orig_ls" and ?gens = "map set_norm gen_ls"
  let ?t = "run_lines tsr opc ?origs threshold ?gens"
  have d: "acc_total_diff_chars ?t \<le> acc_total_chars ?t"
    unfolding run_lines_def foldl_compare_line_fields
    by (simp add: sum_list_mono line_diffs_le_chars)
  have m: "acc_matched_lines ?t \<le> length ?gens"
    unfolding run_lines_def foldl_compare_line_fields by simp
  let ?c = "if acc_total_chars ?t \<noteq> 0
            then 1 - real (acc_total_diff_chars ?t) / real (acc_total_chars ?t) else 0"
  let ?l = "if ?gens \<noteq> [] then real (acc_matched_lines ?t) / real (length ?gens) else 0"
  have c: "0 \<le> ?c \<and> ?c \<le> 1" using d by (simp add: divide_le_eq)
  have l: "0 \<le> ?l \<and> ?l \<le> 1" using m by (simp add: divide_le_eq)
  have "char_accuracy (fst (compare_pdfs_and_build_pairs tsr opc up orig_ls gen_ls threshold)) = round4 up ?c"
    "line_accuracy (fst (compare_pdfs_and_build_pairs tsr opc up orig_ls gen_ls threshold)) = round4 up ?l"
    by (simp_all add: compare_pdfs_and_build_pairs_def run_lines_def Let_def)
  then show ?thesis using round4_unit[of ?c up] round4_unit[of ?l up] c l by simp
qed

lemma compare_line_row_ok:
  assumes "\<forall>r\<in>set (acc_rows t). row_ok tsr r"
  shows "\<forall>r\<in>set (acc_rows (compare_line tsr opc origs thr t g)). row_ok tsr r"
proof (cases "find_best_match tsr g origs 12 1")
  case (Pair score m)
  show ?thesis
  proof (cases m)
    case None
    then show ?thesis using assms Pair by (auto simp: compare_line_def row_ok_def)
  next
    case (Some ol)
    have "score = line_score tsr g ol"
      using find_best_match_Some[of tsr g origs 12 1 score ol] Pair Some by simp
    then have "(\<forall>a b. 0 \<le> tsr a b \<and> tsr a b \<le> 100) \<longrightarrow> 0 \<le> score \<and> score \<le> 100"
      using similarity_score_range[of tsr] by (simp add: line_score_def)
    then show ?thesis using assms Pair Some
      by (auto simp: compare_line_def row_ok_def Let_def split: prod.splits)
  qed
qed

lemma foldl_compare_line_row_ok:
  "\<forall>r\<in>set (acc_rows t). row_ok tsr r \<Longrightarrow>
   \<forall>r\<in>set (acc_rows (foldl (compare_line tsr opc origs thr) t gens)). row_ok tsr r"
proof (induction gens arbitrary: t)
  case Nil
  then show ?case by simp
next
  case (Cons g gens)
  show ?case using Cons.IH[OF compare_line_row_ok[OF Cons.prems]] by simp
qed

text \<open>
  C9: in every row of a comparison run the error type is \<open>no_match\<close> exactly when the
  original page is null, a row that is matched has the error type \<open>match\<close>, and the
  similarity lies between 0 and 100 when the scores of the library do.
\<close>

theorem comparison_row_invariant:
  assumes "r \<in> set (snd (compare_pdfs_and_build_pairs tsr opc up orig_ls gen_ls threshold))"
  shows "(error_type r = ''no_match'' \<longleftrightarrow> orig_page r = None) \<and>
         (matched r \<longrightarrow> error_type r = ''match'') \<and>
         ((\<forall>a b. 0 \<le> tsr a b \<and> tsr a b \<le> 100) \<longrightarrow> 0 \<le> similarity r \<and> similarity r \<le> 100)"
proof -
  let ?t0 = "\<lparr>acc_rows = [], acc_total_chars = 0, acc_total_diff_chars = 0, acc_matched_lines = 0\<rparr>"
  have "\<forall>r\<in>set (acc_rows ?t0). row_ok tsr r" by simp
  from foldl_compare_line_row_ok[OF this]
  have "row_ok tsr r"
    using assms by (simp add: compare_pdfs_and_build_pairs_def Let_def)
  then show ?thesis by (simp add: row_ok_def)
qed

lemma lcs_length_le: "lcs_length xs ys \<le> length xs \<and> lcs_length xs ys \<le> length ys"
  by (induction xs ys rule: lcs_length.induct) auto

lemma indel_ratio_range: "0 \<le> indel_ratio s1 s2 \<and> indel_ratio s1 s2 \<le> 100"
proof -
  have "2 * lcs_length s1 s2 \<le> length s1 + length s2"
    using lcs_length_le[of s1 s2] by simp
  then show ?thesis by (auto simp: indel_ratio_def Let_def divide_le_eq)
qed

lemma token_sort_ratio_range: "\<forall>a b. 0 \<le> token_sort_ratio a b \<and> token_sort_ratio a b \<le> 100"
  by (simp add: token_sort_ratio_def indel_ratio_range)

lemma example_first_row:
  "snd example_run \<noteq> [] \<and> matched (hd (snd example_run)) \<and>
   similarity (hd (snd example_run)) = 80 \<and> orig_page (hd (snd example_run)) = Some 1"
  by code_simp

theorem comparison_row_invariant_witness:
  "hd (snd example_run) \<in> set (snd example_run) \<and>
   (\<forall>a b. 0 \<le> token_sort_ratio a b \<and> token_sort_ratio a b \<le> 100) \<and>
   matched (hd (snd example_run)) \<and>
   error_type (hd (snd example_run)) = ''match'' \<and>
   orig_page (hd (snd example_run)) = Some 1 \<and>
   0 \<le> similarity (hd (snd example_run)) \<and> similarity (hd (snd example_run)) \<le> 100"
proof -
  have m: "hd (snd example_run) \<in> set (snd example_run)"
    using example_first_row by simp
  show ?thesis
    using m token_sort_ratio_range example_first_row
      comparison_row_invariant[of "hd (snd example_run)" token_sort_ratio get_opcodes ties_up
        "[example_line 1 1 ''abc'' 100]" example_gens 75, folded example_run_def]
    by blast
qed

text \<open>
  The claim C5 as the specification has it, that the summary reports the character
  accuracy \<open>1 - total_diff_chars / total_chars\<close>, fails on a run with four differing
  characters of six: the summary holds 0.3333, not a third.
\<close>

theorem char_accuracy_unrounded_counterexample:
  "char_accuracy (fst example_run)
     \<noteq> 1 - real (total_char_diffs (fst example_run)) / real (total_chars (fst example_run))"
proof -
  have "char_accuracy (fst example_run) = 3333 / 10000 \<and>
        total_char_diffs (fst example_run) = 4 \<and> total_chars (fst example_run) = 6"
    by code_simp
  then show ?thesis by simp
qed

text \<open>
  C5, amended: a generated line with a matched original line adds the larger of the two
  text lengths (at least 1) to the total and the edit distance of the two raw texts to
  the differing characters, and is a \<open>match\<close> exactly when its score reaches the
  threshold, else a \<open>mismatch\<close>; a generated line with no original line adds its length
  (at least 1) to the total and its length to the differing characters, and is a
  \<open>no_match\<close>; the summary reports the character accuracy
  \<open>1 - total_diff_chars / total_chars\<close> (0 when the total is 0) and the line accuracy
  \<open>matched_lines / gen_lines\<close> (0 with no generated lines), each rounded to four decimal
  places: a multiple of \<open>1/10000\<close> at most \<open>1/20000\<close> away from the ratio.
\<close>

theorem aggregation_totals:
  "total_chars (fst (compare_pdfs_and_build_pairs tsr opc up orig_ls gen_ls threshold))
     = sum_list (map (line_chars tsr (map set_norm orig_ls)) (map set_norm gen_ls)) \<and>
   total_char_diffs (fst (compare_pdfs_and_build_pairs tsr opc up orig_ls gen_ls threshold))
     = sum_list (map (line_diffs tsr (map set_norm orig_ls)) (map set_norm gen_ls)) \<and>
   map error_type (snd (compare_pdfs_and_build_pairs tsr opc up orig_ls gen_ls threshold))
     = map (line_error_type tsr (map set_norm orig_ls) threshold) (map set_norm gen_ls) \<and>
   matched_lines (fst (compare_pdfs_and_build_pairs tsr opc up orig_ls gen_ls threshold))
     = length (filter (\<lambda>g. line_error_type tsr (map set_norm orig_ls) threshold g = ''match'')
         (map set_norm gen_ls)) \<and>
   gen_lines (fst (compare_pdfs_and_build_pairs tsr opc up orig_ls gen_ls threshold)) = length gen_ls \<and>
   rounded4
     (if total_chars (fst (compare_pdfs_and_build_pairs tsr opc up orig_ls gen_ls threshold)) = 0
      then 0
      else 1 - real (total_char_diffs (fst (compare_pdfs_and_build_pairs tsr opc up orig_ls gen_ls threshold)))
               / real (total_chars (fst (compare_pdfs_and_build_pairs tsr opc up orig_ls gen_ls threshold))))
     (char_accuracy (fst (compare_pdfs_and_build_pairs tsr opc up orig_ls gen_ls threshold))) \<and>
   rounded4
     (if gen_ls = [] then 0
      else real (matched_lines (fst (compare_pdfs_and_build_pairs tsr opc up orig_ls gen_ls threshold)))
             / real (length gen_ls))
     (line_accuracy (fst (compare_pdfs_and_build_pairs tsr opc up orig_ls gen_ls threshold)))"
proof (intro conjI)
  let ?run = "compare_pdfs_and_build_pairs tsr opc up orig_ls gen_ls threshold"
  show "total_chars (fst ?run)
      = sum_list (map (line_chars tsr (map set_norm orig_ls)) (map set_norm gen_ls))"
    by (simp add: compare_pdfs_and_build_pairs_def Let_def foldl_compare_line_fields(1))
  show "total_char_diffs (fst ?run)
      = sum_list (map (line_diffs tsr (map set_norm orig_ls)) (map set_norm gen_ls))"
    by (simp add: compare_pdfs_and_build_pairs_def Let_def foldl_compare_line_fields(2))
  show "map error_type (snd ?run)
      = map (line_error_type tsr (map set_norm orig_ls) threshold) (map set_norm gen_ls)"
    by (simp add: compare_pdfs_and_build_pairs_def Let_def foldl_compare_line_fields(4))
  show "matched_lines (fst ?run)
      = length (filter (\<lambda>g. line_error_type tsr (map set_norm orig_ls) threshold g = ''match'')
          (map set_norm gen_ls))"
    by (simp add: compare_pdfs_and_build_pairs_def Let_def foldl_compare_line_fields(3))
  show "gen_lines (fst ?run) = length gen_ls"
    by (simp add: compare_pdfs_and_build_pairs_def Let_def)
  have "char_accuracy (fst ?run)
      = round4 up (if total_chars (fst ?run) = 0 then 0
                   else 1 - real (total_char_diffs (fst ?run)) / real (total_chars (fst ?run)))"
    by (simp add: compare_pdfs_and_build_pairs_def Let_def)
  then show "rounded4
      (if total_chars (fst ?run) = 0 then 0
       else 1 - real (total_char_diffs (fst ?run)) / real (total_chars (fst ?run)))
      (char_accuracy (fst ?run))"
    by (simp only: round4_rounded)
  have "line_accuracy (fst ?run)
      = round4 up (if gen_ls = [] then 0
                   else real (matched_lines (fst ?run)) / real (length gen_ls))"
    by (simp add: compare_pdfs_and_build_pairs_def Let_def)
  then show "rounded4
      (if gen_ls = [] then 0 else real (matched_lines (fst ?run)) / real (length gen_ls))
      (line_accuracy (fst ?run))"
    by (simp only: round4_rounded)
qed

lemma example_lines:
  "sum_list (map (line_chars token_sort_ratio (map set_norm [example_line 1 1 ''abc'' 100]))
     (map set_norm example_gens)) = 6 \<and>
   sum_list (map (line_diffs token_sort_ratio (map set_norm [example_line 1 1 ''abc'' 100]))
     (map set_norm example_gens)) = 4 \<and>
   map (line_error_type token_sort_ratio (map set_norm [example_line 1 1 ''abc'' 100]) 75)
     (map set_norm example_gens) = [''match'', ''mismatch''] \<and>
   length (filter (\<lambda>g. line_error_type token_sort_ratio
                         (map set_norm [example_line 1 1 ''abc'' 100]) 75 g = ''match'')
             (map set_norm example_gens)) = 1"
  by code_simp

lemma example_accuracies:
  "char_accuracy (fst example_run) = 3333 / 10000 \<and> line_accuracy (fst example_run) = 1 / 2"
  by code_simp

theorem aggregation_totals_witness:
  "total_chars (fst example_run) = 6 \<and> total_char_diffs (fst example_run) = 4 \<and>
   map error_type (snd example_run) = [''match'', ''mismatch''] \<and>
   matched_lines (fst example_run) = 1 \<and>
   rounded4 (1 - 4 / 6) (char_accuracy (fst example_run)) \<and>
   char_accuracy (fst example_run) = 3333 / 10000 \<and>
   rounded4 (1 / 2) (line_accuracy (fst example_run)) \<and>
   line_accuracy (fst example_run) = 1 / 2"
proof -
  have g: "example_gens \<noteq> []" "length example_gens = 2" by (simp_all add: example_gens_def)
  note a = aggregation_totals[of token_sort_ratio get_opcodes ties_up
      "[example_line 1 1 ''abc'' 100]" example_gens 75, folded example_run_def]
  have t: "total_chars (fst example_run) = 6" "total_char_diffs (fst example_run) = 4"
    "map error_type (snd example_run) = [''match'', ''mismatch'']"
    "matched_lines (fst example_run) = 1"
    using a example_lines by simp_all
  have "rounded4
      (if total_chars (fst example_run) = 0 then 0
       else 1 - real (total_char_diffs (fst example_run)) / real (total_chars (fst example_run)))
      (char_accuracy (fst example_run))"
    using a by (elim conjE)
  then have c: "rounded4 (1 - 4 / 6) (char_accuracy (fst example_run))"
    by (simp add: t)
  have "rounded4
      (if example_gens = [] then 0
       else real (matched_lines (fst example_run)) / real (length example_gens))
      (line_accuracy (fst example_run))"
    using a by (elim conjE)
  then have l: "rounded4 (1 / 2) (line_accuracy (fst example_run))"
    by (simp add: t g)
  show ?thesis using t c l example_accuracies by blast
qed

section \<open>Properties of the aligner\<close>

text \<open>
  The matching blocks of the aligner above lie inside the two sequences, for every pair
  of sequences.
\<close>

lemma flm_step_jinv:
  assumes "\<forall>j v. j2len j = Some v \<longrightarrow> v + blo \<le> j + 1" "blo \<le> j" "j < bhi" "flm_jinv blo bhi st"
  shows "flm_jinv blo bhi (flm_step j2len i j st)"
proof -
  obtain m besti bestj bestsize where st: "st = (m, besti, bestj, bestsize)"
    by (metis prod_cases4)
  define k where "k = (if j = 0 then 0 else case j2len (j - 1) of None \<Rightarrow> 0 | Some v \<Rightarrow> v) + 1"
  have kb: "k + blo \<le> j + 1"
  proof (cases "j = 0")
    case True
    then show ?thesis using assms(2) by (simp add: k_def)
  next
    case False
    show ?thesis
    proof (cases "j2len (j - 1)")
      case None
      then show ?thesis using False assms(2) by (simp add: k_def)
    next
      case (Some v)
      then have "v + blo \<le> (j - 1) + 1" using assms(1) by blast
      then show ?thesis using False Some by (simp add: k_def)
    qed
  qed
  have "flm_step j2len i j st =
      (m(j \<mapsto> k), if k > bestsize then (i + 1 - k, j + 1 - k, k) else (besti, bestj, bestsize))"
    unfolding flm_step_def st k_def by (simp add: Let_def)
  then show ?thesis using assms(3,4) kb st by (auto simp: flm_jinv_def)
qed

lemma flm_row_jinv:
  assumes "\<forall>j v. j2len j = Some v \<longrightarrow> v + blo \<le> j + 1" "flm_jinv blo bhi st"
  shows "flm_jinv blo bhi (flm_row j2len i blo bhi js st)"
  using assms(2)
proof (induction js arbitrary: st)
  case Nil
  then show ?case by simp
next
  case (Cons j js)
  then show ?case using flm_step_jinv[OF assms(1)] by (simp add: not_less not_le)
qed

lemma flm_rows_jinv:
  assumes "flm_jinv blo bhi (j2len, best)" "flm_rows a b blo bhi rows (j2len, best) = (bi, bj, bs)"
  shows "blo \<le> bj \<and> bj + bs \<le> bhi"
  using assms
proof (induction rows arbitrary: j2len best)
  case Nil
  then show ?case by (auto simp: flm_jinv_def)
next
  case (Cons i rows)
  obtain m best' where
    row: "flm_row j2len i blo bhi (b2j_get b (a ! i)) (Map.empty, best) = (m, best')"
    by (metis surj_pair)
  have j: "\<forall>j v. j2len j = Some v \<longrightarrow> v + blo \<le> j + 1"
    using Cons.prems(1) by (auto simp: flm_jinv_def)
  have "flm_jinv blo bhi (Map.empty, best)"
    using Cons.prems(1) by (auto simp: flm_jinv_def)
  then have inv: "flm_jinv blo bhi (m, best')"
    using flm_row_jinv[OF j, of bhi "(Map.empty, best)" i "b2j_get b (a ! i)"] row by simp
  show ?case using Cons.IH[OF inv] Cons.prems(2) row by simp
qed

lemma extend_left_jbounds:
  "blo \<le> fst (snd st) \<Longrightarrow> blo \<le> fst (snd (extend_left a b alo blo st)) \<and>
     fst (snd (extend_left a b alo blo st)) + snd (snd (extend_left a b alo blo st))
       = fst (snd st) + snd (snd st)"
proof (induction a b alo blo st rule: extend_left.induct)
  case (1 a b alo blo besti bestj bestsize)
  show ?case
  proof (cases "besti > alo \<and> bestj > blo \<and> a ! (besti - 1) = b ! (bestj - 1)")
    case True
    then have "extend_left a b alo blo (besti, bestj, bestsize)
        = extend_left a b alo blo (besti - 1, bestj - 1, bestsize + 1)"
      by (subst extend_left.simps) simp
    moreover have "blo \<le> fst (snd (besti - 1, bestj - 1, bestsize + 1))" using True by auto
    ultimately show ?thesis using 1(1)[OF True] True by simp
  next
    case False
    then have "extend_left a b alo blo (besti, bestj, bestsize) = (besti, bestj, bestsize)"
      by (subst extend_left.simps) auto
    then show ?thesis using 1(2) by simp
  qed
qed

lemma extend_right_jbounds:
  "fst (snd st) + snd (snd st) \<le> bhi \<Longrightarrow>
     fst (snd (extend_right a b ahi bhi st)) = fst (snd st) \<and>
     fst (snd (extend_right a b ahi bhi st)) + snd (snd (extend_right a b ahi bhi st)) \<le> bhi"
proof (induction a b ahi bhi st rule: extend_right.induct)
  case (1 a b ahi bhi besti bestj bestsize)
  show ?case
  proof (cases "besti + bestsize < ahi \<and> bestj + bestsize < bhi
         \<and> a ! (besti + bestsize) = b ! (bestj + bestsize)")
    case True
    then have "extend_right a b ahi bhi (besti, bestj, bestsize)
        = extend_right a b ahi bhi (besti, bestj, bestsize + 1)"
      by (subst extend_right.simps) simp
    moreover have "fst (snd (besti, bestj, bestsize + 1)) + snd (snd (besti, bestj, bestsize + 1)) \<le> bhi"
      using True by auto
    ultimately show ?thesis using 1(1)[OF True] by simp
  next
    case False
    then have "extend_right a b ahi bhi (besti, bestj, bestsize) = (besti, bestj, bestsize)"
      by (subst extend_right.simps) auto
    then show ?thesis using 1(2) by simp
  qed
qed

lemma find_longest_match_jbounds:
  assumes "blo \<le> bhi" "find_longest_match a b alo ahi blo bhi = (i, j, k)"
  shows "blo \<le> j \<and> j + k \<le> bhi"
proof -
  obtain bi bj bs where r: "flm_rows a b blo bhi [alo..<ahi] (Map.empty, alo, blo, 0) = (bi, bj, bs)"
    by (metis prod_cases3)
  have "flm_jinv blo bhi (Map.empty, alo, blo, 0)" using assms(1) by (simp add: flm_jinv_def)
  then have b0: "blo \<le> bj \<and> bj + bs \<le> bhi"
    using flm_rows_jinv[OF _ r] by simp
  let ?l = "extend_left a b alo blo (bi, bj, bs)"
  have b1: "blo \<le> fst (snd ?l) \<and> fst (snd ?l) + snd (snd ?l) = bj + bs"
    using extend_left_jbounds[of blo "(bi, bj, bs)" a b alo] b0 by simp
  have b2: "fst (snd (extend_right a b ahi bhi ?l)) = fst (snd ?l) \<and>
      fst (snd (extend_right a b ahi bhi ?l)) + snd (snd (extend_right a b ahi bhi ?l)) \<le> bhi"
    using extend_right_jbounds[of ?l bhi a b ahi] b0 b1 by simp
  have "extend_right a b ahi bhi ?l = (i, j, k)"
    using assms(2) r by (simp add: find_longest_match_def)
  then show ?thesis using b1 b2 by simp
qed

lemma slice_nonempty: "i < j \<Longrightarrow> j \<le> length xs \<Longrightarrow> slice xs i j \<noteq> []"
  by (simp add: slice_def)

text \<open>
  The opcodes of the aligner above align the two sequences, for every pair of sequences:
  every matching block is a common block, the blocks follow each other in both sequences
  at once, and the loop over them fills the gaps. The tokens of the equal runs are
  therefore a common subsequence of the two sequences, no longer than a longest one.
\<close>

lemma b2j_get_match: "j \<in> set (b2j_get b e) \<Longrightarrow> b ! j = e"
  by (auto simp: b2j_get_def Let_def split: if_splits)

lemma flm_step_minv:
  assumes "ends_match a b i j2len" "b ! j = a ! i" "flm_minv a b (i + 1) st"
  shows "flm_minv a b (i + 1) (flm_step j2len i j st)"
proof -
  obtain m besti bestj bestsize where st: "st = (m, besti, bestj, bestsize)"
    by (metis prod_cases4)
  define v where "v = (if j = 0 then 0 else case j2len (j - 1) of None \<Rightarrow> 0 | Some v \<Rightarrow> v)"
  define k where "k = v + 1"
  have v: "v \<le> i \<and> v \<le> j \<and> (\<forall>t<v. a ! (i - 1 - t) = b ! (j - 1 - t))"
  proof (cases "j = 0")
    case True
    then show ?thesis by (simp add: v_def)
  next
    case False
    show ?thesis
    proof (cases "j2len (j - 1)")
      case None
      then show ?thesis using False by (simp add: v_def)
    next
      case (Some w)
      then have "w \<le> i \<and> w \<le> j - 1 + 1 \<and> (\<forall>t<w. a ! (i - 1 - t) = b ! (j - 1 - t))"
        using assms(1) unfolding ends_match_def by blast
      then show ?thesis using False Some by (simp add: v_def)
    qed
  qed
  have e: "a ! (i - t) = b ! (j - t)" if "t < k" for t
  proof (cases t)
    case 0
    then show ?thesis using assms(2) by simp
  next
    case (Suc t')
    then have "t' < v" using that by (simp add: k_def)
    then have "a ! (i - 1 - t') = b ! (j - 1 - t')" using v by blast
    then show ?thesis using Suc by simp
  qed
  have kb: "k \<le> i + 1" "k \<le> j + 1" using v by (simp_all add: k_def)
  have "\<forall>t<k. a ! (i + 1 - k + t) = b ! (j + 1 - k + t)"
  proof (intro allI impI)
    fix t assume t: "t < k"
    then have s: "k - 1 - t < k" by simp
    have i1: "i - (k - 1 - t) = i + 1 - k + t" using kb t by arith
    have j1: "j - (k - 1 - t) = j + 1 - k + t" using kb t by arith
    from e[OF s] show "a ! (i + 1 - k + t) = b ! (j + 1 - k + t)" unfolding i1 j1 .
  qed
  then have bm: "block_match a b (i + 1 - k, j + 1 - k, k)"
    by (simp add: block_match_def)
  have s: "flm_step j2len i j st =
      (m(j \<mapsto> k), if k > bestsize then (i + 1 - k, j + 1 - k, k) else (besti, bestj, bestsize))"
    unfolding flm_step_def st k_def v_def by (simp add: Let_def)
  have em: "ends_match a b (i + 1) (m(j \<mapsto> k))"
    using assms(3) kb e unfolding flm_minv_def st ends_match_def by auto
  have "block_match a b (if k > bestsize then (i + 1 - k, j + 1 - k, k) else (besti, bestj, bestsize))"
    using bm assms(3) unfolding flm_minv_def st by simp
  then show ?thesis using em unfolding s flm_minv_def by simp
qed

lemma flm_row_minv:
  assumes "ends_match a b i j2len" "\<forall>j\<in>set js. b ! j = a ! i" "flm_minv a b (i + 1) st"
  shows "flm_minv a b (i + 1) (flm_row j2len i blo bhi js st)"
  using assms(2,3)
proof (induction js arbitrary: st)
  case Nil
  then show ?case by simp
next
  case (Cons j js)
  then show ?case using flm_step_minv[OF assms(1)] by simp
qed

lemma flm_rows_minv:
  assumes "flm_minv a b i (j2len, best)"
  shows "block_match a b (flm_rows a b blo bhi [i..<ahi] (j2len, best))"
  using assms
proof (induction "ahi - i" arbitrary: i j2len best)
  case 0
  then show ?case by (simp add: flm_minv_def)
next
  case (Suc n)
  then have lt: "i < ahi" by simp
  then have up: "[i..<ahi] = i # [Suc i..<ahi]" by (simp add: upt_conv_Cons)
  obtain m best' where
    row: "flm_row j2len i blo bhi (b2j_get b (a ! i)) (Map.empty, best) = (m, best')"
    by (metis surj_pair)
  have j: "ends_match a b i j2len" using Suc.prems by (simp add: flm_minv_def)
  have "flm_minv a b (i + 1) (Map.empty, best)"
    using Suc.prems by (simp add: flm_minv_def ends_match_def)
  then have inv: "flm_minv a b (Suc i) (m, best')"
    using flm_row_minv[OF j, of "b2j_get b (a ! i)" "(Map.empty, best)" blo bhi] row
      b2j_get_match[of _ b "a ! i"]
    by simp
  have n: "n = ahi - Suc i" using Suc.hyps(2) by simp
  show ?case using Suc.hyps(1)[OF n inv] up row by simp
qed

lemma extend_left_match:
  "block_match a b st \<Longrightarrow> block_match a b (extend_left a b alo blo st)"
proof (induction a b alo blo st rule: extend_left.induct)
  case (1 a b alo blo besti bestj bestsize)
  show ?case
  proof (cases "besti > alo \<and> bestj > blo \<and> a ! (besti - 1) = b ! (bestj - 1)")
    case True
    then have u: "extend_left a b alo blo (besti, bestj, bestsize)
        = extend_left a b alo blo (besti - 1, bestj - 1, bestsize + 1)"
      by (subst extend_left.simps) simp
    have "a ! (besti - 1 + t) = b ! (bestj - 1 + t)" if "t < bestsize + 1" for t
    proof (cases t)
      case 0
      then show ?thesis using True by simp
    next
      case (Suc t')
      then have "a ! (besti + t') = b ! (bestj + t')"
        using that "1.prems" by (simp add: block_match_def)
      then show ?thesis using Suc True by simp
    qed
    then have "block_match a b (besti - 1, bestj - 1, bestsize + 1)"
      by (simp add: block_match_def)
    then show ?thesis using 1(1)[OF True] u by simp
  next
    case False
    then have "extend_left a b alo blo (besti, bestj, bestsize) = (besti, bestj, bestsize)"
      by (subst extend_left.simps) auto
    then show ?thesis using 1(2) by simp
  qed
qed

lemma extend_right_match:
  "block_match a b st \<Longrightarrow> block_match a b (extend_right a b ahi bhi st)"
proof (induction a b ahi bhi st rule: extend_right.induct)
  case (1 a b ahi bhi besti bestj bestsize)
  show ?case
  proof (cases "besti + bestsize < ahi \<and> bestj + bestsize < bhi
         \<and> a ! (besti + bestsize) = b ! (bestj + bestsize)")
    case True
    then have u: "extend_right a b ahi bhi (besti, bestj, bestsize)
        = extend_right a b ahi bhi (besti, bestj, bestsize + 1)"
      by (subst extend_right.simps) simp
    have "block_match a b (besti, bestj, bestsize + 1)"
      using "1.prems" True by (auto simp: block_match_def less_Suc_eq)
    then show ?thesis using 1(1)[OF True] u by simp
  next
    case False
    then have "extend_right a b ahi bhi (besti, bestj, bestsize) = (besti, bestj, bestsize)"
      by (subst extend_right.simps) auto
    then show ?thesis using 1(2) by simp
  qed
qed

lemma find_longest_match_match: "block_match a b (find_longest_match a b alo ahi blo bhi)"
proof -
  have "flm_minv a b alo (Map.empty, alo, blo, 0)"
    by (simp add: flm_minv_def ends_match_def block_match_def)
  then have "block_match a b (flm_rows a b blo bhi [alo..<ahi] (Map.empty, alo, blo, 0))"
    by (rule flm_rows_minv)
  then show ?thesis
    unfolding find_longest_match_def by (intro extend_right_match extend_left_match)
qed

lemma apart_sym: "apart r s = apart s r"
  by (auto simp: apart_def)

lemma apart_inside: "inside r R \<Longrightarrow> apart R x \<Longrightarrow> apart r x"
  by (auto simp: apart_def before_def inside_def split: prod.splits)

lemma apart_inside2: "inside r R \<Longrightarrow> apart x R \<Longrightarrow> apart x r"
  using apart_inside apart_sym by blast

lemma sorted_wrt_appendI:
  "sorted_wrt P xs \<Longrightarrow> sorted_wrt P ys \<Longrightarrow> \<forall>x\<in>set xs. \<forall>y\<in>set ys. P x y
     \<Longrightarrow> sorted_wrt P (xs @ ys)"
  by (simp add: sorted_wrt_append)

lemma gmb_loop_invariant:
  assumes "\<forall>r\<in>set queue. range_ok (length a) (length b) r"
    "\<forall>m\<in>set blocks. good_block a b m \<and> 0 < snd (snd m)"
    "sorted_wrt apart (queue @ map rect_of blocks)"
  shows "(\<forall>m\<in>set (gmb_loop a b queue blocks). good_block a b m \<and> 0 < snd (snd m)) \<and>
         sorted_wrt apart (map rect_of (gmb_loop a b queue blocks))"
  using assms
proof (induction a b queue blocks rule: gmb_loop.induct)
  case (1 a b matching_blocks)
  then show ?case by (simp add: gmb_loop.simps(1))
next
  case (2 a b alo ahi blo bhi queue matching_blocks)
  let ?la = "length a" and ?lb = "length b"
  let ?R = "(alo, ahi, blo, bhi)"
  obtain i j k where f: "find_longest_match a b alo ahi blo bhi = (i, j, k)"
    by (metis prod_cases3)
  have r: "alo \<le> ahi" "ahi \<le> ?la" "blo \<le> bhi" "bhi \<le> ?lb"
    using "2.prems"(1) by (simp_all add: range_ok_def)
  have q0: "\<forall>r\<in>set queue. range_ok ?la ?lb r" using "2.prems"(1) by simp
  have old: "sorted_wrt apart (queue @ map rect_of matching_blocks)"
    and Rold: "\<forall>x\<in>set (queue @ map rect_of matching_blocks). apart ?R x"
    using "2.prems"(3) by simp_all
  show ?case
  proof (cases "k = 0")
    case True
    have u: "gmb_loop a b (?R # queue) matching_blocks = gmb_loop a b queue matching_blocks"
      using f True by (subst gmb_loop.simps(2)) simp
    show ?thesis
      unfolding u using "2.IH"(2)[OF f[symmetric] refl _ q0 "2.prems"(2) old] True by simp
  next
    case False
    have bi: "alo \<le> i \<and> i + k \<le> ahi" using find_longest_match_bounds[OF f False] .
    have bj: "blo \<le> j \<and> j + k \<le> bhi" using find_longest_match_jbounds[OF r(3) f] .
    have bm: "block_match a b (i, j, k)" using find_longest_match_match[of a b alo ahi blo bhi] f by simp
    let ?M = "rect_of (i, j, k)"
    let ?Rt = "(i + k, ahi, j + k, bhi)" and ?L = "(alo, i, blo, j)"
    let ?new = "(if i + k < ahi \<and> j + k < bhi then [?Rt] else [])
                @ (if alo < i \<and> blo < j then [?L] else [])"
    let ?q = "(if i + k < ahi \<and> j + k < bhi then [?Rt] else [])
                @ (if alo < i \<and> blo < j then [?L] else []) @ queue"
    have u: "gmb_loop a b (?R # queue) matching_blocks
        = gmb_loop a b ?q (matching_blocks @ [(i, j, k)])"
      using f False by (subst gmb_loop.simps(2)) simp
    have q: "\<forall>r\<in>set ?q. range_ok ?la ?lb r"
      using q0 bi bj r by (auto simp: range_ok_def)
    have m: "\<forall>m\<in>set (matching_blocks @ [(i, j, k)]). good_block a b m \<and> 0 < snd (snd m)"
      using "2.prems"(2) bi bj r bm False by (auto simp: good_block_def block_ok_def)
    have ins: "inside ?M ?R" "inside ?Rt ?R" "inside ?L ?R"
      using bi bj by (simp_all add: inside_def rect_of_def)
    have oldM: "\<forall>x\<in>set (queue @ map rect_of matching_blocks). apart x ?M"
      using Rold apart_inside[OF ins(1)] apart_sym by blast
    have oldRt: "\<forall>x\<in>set (queue @ map rect_of matching_blocks). apart ?Rt x"
      using Rold apart_inside[OF ins(2)] by blast
    have oldL: "\<forall>x\<in>set (queue @ map rect_of matching_blocks). apart ?L x"
      using Rold apart_inside[OF ins(3)] by blast
    have mut: "apart ?Rt ?L" "apart ?Rt ?M" "apart ?L ?M"
      by (simp_all add: apart_def before_def rect_of_def)
    have s1: "sorted_wrt apart ((queue @ map rect_of matching_blocks) @ [?M])"
      by (rule sorted_wrt_appendI[OF old]) (use oldM in simp_all)
    have s2: "sorted_wrt apart ?new" using mut by simp
    have s3: "\<forall>x\<in>set ?new. \<forall>y\<in>set ((queue @ map rect_of matching_blocks) @ [?M]). apart x y"
      using oldRt oldL mut by auto
    have "sorted_wrt apart (?new @ ((queue @ map rect_of matching_blocks) @ [?M]))"
      using s2 s1 s3 by (rule sorted_wrt_appendI)
    then have s: "sorted_wrt apart (?q @ map rect_of (matching_blocks @ [(i, j, k)]))"
      by (simp only: append_assoc map_append list.map)
    show ?thesis
      unfolding u using "2.IH"(1)[OF f[symmetric] refl _ q m s] False by simp
  qed
qed

lemma before_rect_sorted:
  assumes "good_block a b m" "good_block a b n" "0 < snd (snd m)" "0 < snd (snd n)"
    "apart (rect_of m) (rect_of n)" "m \<le> n"
  shows "before (rect_of m) (rect_of n)"
proof -
  obtain i1 j1 k1 where m: "m = (i1, j1, k1)" by (metis prod_cases3)
  obtain i2 j2 k2 where n: "n = (i2, j2, k2)" by (metis prod_cases3)
  have "i1 \<le> i2" using assms(6) m n by (auto simp: less_eq_prod_def)
  then have "\<not> before (rect_of n) (rect_of m)"
    using assms(4) m n by (simp add: before_def rect_of_def)
  then show ?thesis using assms(5) by (simp add: apart_def)
qed

lemma sorted_wrt_refine:
  assumes "sorted_wrt P xs" "distinct xs" "\<forall>x\<in>set xs. \<forall>y\<in>set xs. x \<noteq> y \<and> P x y \<longrightarrow> Q x y"
  shows "sorted_wrt Q xs"
  using assms by (induction xs) auto

lemma sorted_wrt_apart_set:
  assumes "sorted_wrt apart (map rect_of bs)" "\<forall>m\<in>set bs. 0 < snd (snd m)"
  shows "distinct bs \<and> (\<forall>x\<in>set bs. \<forall>y\<in>set bs. x \<noteq> y \<longrightarrow> apart (rect_of x) (rect_of y))"
  using assms
proof (induction bs)
  case Nil
  then show ?case by simp
next
  case (Cons m bs)
  have irr: "\<not> apart (rect_of m) (rect_of m)"
    using Cons.prems(2) by (cases m) (auto simp: apart_def before_def rect_of_def)
  have h: "\<forall>y\<in>set bs. apart (rect_of m) (rect_of y)" using Cons.prems(1) by simp
  then have "m \<notin> set bs" using irr by blast
  moreover have "distinct bs \<and> (\<forall>x\<in>set bs. \<forall>y\<in>set bs. x \<noteq> y \<longrightarrow> apart (rect_of x) (rect_of y))"
    using Cons.IH Cons.prems by simp
  ultimately show ?case using h apart_sym by auto
qed

lemma sorted_blocks_chain:
  assumes "\<forall>m\<in>set bs. good_block a b m \<and> 0 < snd (snd m)" "sorted_wrt apart (map rect_of bs)"
  shows "sorted_wrt block_before (sort bs)"
proof -
  have d: "distinct bs"
    and p: "\<forall>x\<in>set bs. \<forall>y\<in>set bs. x \<noteq> y \<longrightarrow> apart (rect_of x) (rect_of y)"
    using sorted_wrt_apart_set[OF assms(2)] assms(1) by simp_all
  have "\<forall>x\<in>set (sort bs). \<forall>y\<in>set (sort bs). x \<noteq> y \<and> x \<le> y \<longrightarrow> block_before x y"
    using p assms(1) before_rect_sorted[of a b] by (auto simp: block_before_def)
  moreover have "sorted_wrt (\<le>) (sort bs)" by simp
  moreover have "distinct (sort bs)" using d by simp
  ultimately show ?thesis by (rule sorted_wrt_refine[rotated 2])
qed

lemma good_block_merge:
  assumes "good_block a b (i1, j1, k1)" "good_block a b (i2, j2, k2)" "i1 + k1 = i2" "j1 + k1 = j2"
  shows "good_block a b (i1, j1, k1 + k2)"
proof -
  have "a ! (i1 + t) = b ! (j1 + t)" if "t < k1 + k2" for t
  proof (cases "t < k1")
    case True
    then show ?thesis using assms(1) by (simp add: good_block_def block_match_def)
  next
    case False
    then have "t - k1 < k2" using that by simp
    then have "a ! (i2 + (t - k1)) = b ! (j2 + (t - k1))"
      using assms(2) by (simp add: good_block_def block_match_def)
    moreover have "i2 + (t - k1) = i1 + t" "j2 + (t - k1) = j1 + t"
      using False assms(3,4) by simp_all
    ultimately show ?thesis by simp
  qed
  moreover have "block_ok (length a) (length b) (i1, j1, k1 + k2)"
    using assms by (auto simp: good_block_def block_ok_def)
  ultimately show ?thesis by (simp add: good_block_def block_match_def)
qed

lemma block_before_simp [simp]:
  "block_before (i1, j1, k1) (i2, j2, k2) = (i1 + k1 \<le> i2 \<and> j1 + k1 \<le> j2)"
  by (simp add: block_before_def before_def rect_of_def)

lemma block_before_merge_left:
  "block_before x (i1, j1, k1) \<Longrightarrow> block_before x (i1, j1, k1 + k2)"
  by (cases x) simp

lemma block_before_merge_right:
  "i1 + k1 = i2 \<Longrightarrow> j1 + k1 = j2 \<Longrightarrow> block_before (i2, j2, k2) y
     \<Longrightarrow> block_before (i1, j1, k1 + k2) y"
  by (cases y) auto

lemma collapse_chain:
  assumes "sorted_wrt block_before (acc @ cur # rest)" "\<forall>m\<in>set (acc @ cur # rest). good_block a b m"
  shows "sorted_wrt block_before (collapse cur rest acc) \<and>
         (\<forall>m\<in>set (collapse cur rest acc). good_block a b m)"
  using assms
proof (induction cur rest acc rule: collapse.induct)
  case (1 i1 j1 k1 non_adjacent)
  then show ?case by (auto simp: sorted_wrt_append)
next
  case (2 i1 j1 k1 i2 j2 k2 blocks non_adjacent)
  show ?case
  proof (cases "i1 + k1 = i2 \<and> j1 + k1 = j2")
    case True
    have u: "collapse (i1, j1, k1) ((i2, j2, k2) # blocks) non_adjacent
        = collapse (i1, j1, k1 + k2) blocks non_adjacent"
      using True by simp
    have g: "good_block a b (i1, j1, k1 + k2)"
      using good_block_merge[of a b i1 j1 k1 i2 j2 k2] "2.prems"(2) True by simp
    have p: "sorted_wrt block_before non_adjacent" "sorted_wrt block_before blocks"
      "\<forall>x\<in>set non_adjacent. block_before x (i1, j1, k1)"
      "\<forall>y\<in>set blocks. block_before (i2, j2, k2) y"
      "\<forall>x\<in>set non_adjacent. \<forall>y\<in>set blocks. block_before x y"
      using "2.prems"(1) by (auto simp: sorted_wrt_append)
    have "\<forall>x\<in>set non_adjacent. block_before x (i1, j1, k1 + k2)"
      using p(3) block_before_merge_left by blast
    moreover have "\<forall>y\<in>set blocks. block_before (i1, j1, k1 + k2) y"
      using p(4) True block_before_merge_right by blast
    ultimately have s: "sorted_wrt block_before (non_adjacent @ (i1, j1, k1 + k2) # blocks)"
      using p(1,2,5) by (auto simp: sorted_wrt_append)
    have gs: "\<forall>m\<in>set (non_adjacent @ (i1, j1, k1 + k2) # blocks). good_block a b m"
      using "2.prems"(2) g by auto
    show ?thesis unfolding u using "2.IH"(1)[OF True s gs] .
  next
    case False
    let ?acc = "if k1 \<noteq> 0 then non_adjacent @ [(i1, j1, k1)] else non_adjacent"
    have u: "collapse (i1, j1, k1) ((i2, j2, k2) # blocks) non_adjacent
        = collapse (i2, j2, k2) blocks ?acc"
      using False by auto
    have s: "sorted_wrt block_before (?acc @ (i2, j2, k2) # blocks)"
      using "2.prems"(1) by (auto simp: sorted_wrt_append)
    have gs: "\<forall>m\<in>set (?acc @ (i2, j2, k2) # blocks). good_block a b m"
      using "2.prems"(2) by auto
    show ?thesis unfolding u using "2.IH"(2)[OF False s gs] .
  qed
qed

lemma get_matching_blocks_chain:
  "sorted_wrt block_before (get_matching_blocks a b) \<and>
   (\<forall>m\<in>set (get_matching_blocks a b). good_block a b m)"
proof -
  let ?raw = "gmb_loop a b [(0, length a, 0, length b)] []"
  have inv: "(\<forall>m\<in>set ?raw. good_block a b m \<and> 0 < snd (snd m)) \<and> sorted_wrt apart (map rect_of ?raw)"
    by (rule gmb_loop_invariant) (simp_all add: range_ok_def)
  then have ch: "sorted_wrt block_before (sort ?raw)"
    using sorted_blocks_chain[of ?raw a b] by simp
  have z: "good_block a b (0, 0, 0)" by (simp add: good_block_def block_ok_def block_match_def)
  have "block_before (0, 0, 0) y" for y by (cases y) simp
  then have s: "sorted_wrt block_before ([] @ (0, 0, 0) # sort ?raw)"
    using ch by simp
  have g: "\<forall>m\<in>set ([] @ (0, 0, 0) # sort ?raw). good_block a b m"
    using inv z by simp
  let ?c = "collapse (0, 0, 0) (sort ?raw) []"
  have c: "sorted_wrt block_before ?c \<and> (\<forall>m\<in>set ?c. good_block a b m)"
    using collapse_chain[OF s g] .
  have l: "good_block a b (length a, length b, 0)"
    by (simp add: good_block_def block_ok_def block_match_def)
  have "\<forall>m\<in>set ?c. block_before m (length a, length b, 0)"
    using c by (auto simp: good_block_def block_ok_def)
  then have "sorted_wrt block_before (?c @ [(length a, length b, 0)])"
    using c by (simp add: sorted_wrt_append)
  then show ?thesis using c l by (simp add: get_matching_blocks_def Let_def)
qed

lemma end_pos_snoc: "end_pos p (blocks @ [(ai, bj, sz)]) = (ai + sz, bj + sz)"
  by (induction p blocks rule: end_pos.induct) simp_all

lemma take_slice: "i \<le> j \<Longrightarrow> take i xs @ slice xs i j = take j xs"
proof -
  assume "i \<le> j"
  then have "take i xs = take i (take j xs)" by (simp add: min_def)
  then show ?thesis unfolding slice_def by (metis append_take_drop_id)
qed

lemma slice_empty: "j \<le> i \<Longrightarrow> slice xs i j = []"
  by (simp add: slice_def)

lemma slice_match:
  assumes "good_block a b (i, j, k)"
  shows "slice a i (i + k) = slice b j (j + k)"
proof (rule nth_equalityI)
  have l: "i + k \<le> length a" "j + k \<le> length b"
    using assms by (simp_all add: good_block_def block_ok_def)
  then show "length (slice a i (i + k)) = length (slice b j (j + k))"
    by (simp add: slice_def)
  fix t assume "t < length (slice a i (i + k))"
  then have t: "t < k" using l by (simp add: slice_def)
  then have "a ! (i + t) = b ! (j + t)"
    using assms by (simp add: good_block_def block_match_def)
  then show "slice a i (i + k) ! t = slice b j (j + k) ! t"
    using t l by (simp add: slice_def)
qed

lemma cover_snoc:
  "gen_cover a (rs @ [(tag, i1, i2, j1, j2)]) = gen_cover a rs @ slice a i1 i2"
  "orig_cover b (rs @ [(tag, i1, i2, j1, j2)]) = orig_cover b rs @ slice b j1 j2"
  by (simp_all add: gen_cover_def orig_cover_def)

lemma opcodes_loop_aligned:
  assumes "sorted_wrt block_before blocks" "\<forall>m\<in>set blocks. good_block a b m"
    "\<forall>m\<in>set blocks. i \<le> fst m \<and> j \<le> fst (snd m)"
    "gen_cover a answer = take i a" "orig_cover b answer = take j b"
    "list_all (run_shape a b) answer"
  shows "gen_cover a (opcodes_loop i j blocks answer) = take (fst (end_pos (i, j) blocks)) a \<and>
         orig_cover b (opcodes_loop i j blocks answer) = take (snd (end_pos (i, j) blocks)) b \<and>
         list_all (run_shape a b) (opcodes_loop i j blocks answer)"
  using assms
proof (induction blocks arbitrary: i j answer)
  case Nil
  then show ?case by simp
next
  case (Cons m blocks)
  obtain ai bj sz where m: "m = (ai, bj, sz)" by (metis prod_cases3)
  have g: "good_block a b (ai, bj, sz)" using Cons.prems(2) m by simp
  have ok: "ai + sz \<le> length a" "bj + sz \<le> length b"
    using g by (simp_all add: good_block_def block_ok_def)
  have le: "i \<le> ai" "j \<le> bj" using Cons.prems(3) m by simp_all
  define tag where "tag = (if i < ai \<and> j < bj then ''replace''
                 else if i < ai then ''delete''
                 else if j < bj then ''insert''
                 else [])"
  define answer1 where "answer1 = (if tag \<noteq> [] then answer @ [(tag, i, ai, j, bj)] else answer)"
  define answer2 where "answer2 = (if sz \<noteq> 0 then answer1 @ [(''equal'', ai, ai + sz, bj, bj + sz)] else answer1)"
  have u: "opcodes_loop i j (m # blocks) answer = opcodes_loop (ai + sz) (bj + sz) blocks answer2"
    by (simp add: m Let_def tag_def answer1_def answer2_def)
  have e: "end_pos (i, j) (m # blocks) = end_pos (ai + sz, bj + sz) blocks"
    by (simp add: m)
  have tag_empty: "tag = [] \<Longrightarrow> i = ai \<and> j = bj"
    using le by (auto simp: tag_def split: if_splits)
  have c1: "gen_cover a answer1 = take ai a"
  proof (cases "tag = []")
    case True
    then show ?thesis using tag_empty Cons.prems(4) by (simp add: answer1_def)
  next
    case False
    then show ?thesis
      using Cons.prems(4) take_slice[OF le(1), of a] by (simp add: answer1_def cover_snoc)
  qed
  have d1: "orig_cover b answer1 = take bj b"
  proof (cases "tag = []")
    case True
    then show ?thesis using tag_empty Cons.prems(5) by (simp add: answer1_def)
  next
    case False
    then show ?thesis
      using Cons.prems(5) take_slice[OF le(2), of b] by (simp add: answer1_def cover_snoc)
  qed
  have gap: "tag \<noteq> [] \<Longrightarrow> run_shape a b (tag, i, ai, j, bj)"
  proof -
    assume "tag \<noteq> []"
    then consider (r) "i < ai" "j < bj" "tag = ''replace''"
      | (d) "i < ai" "j = bj" "tag = ''delete''"
      | (n) "i = ai" "j < bj" "tag = ''insert''"
      using le by (auto simp: tag_def split: if_splits)
    then show ?thesis
    proof cases
      case r
      then show ?thesis
        using ok slice_nonempty[of i ai a] slice_nonempty[of j bj b] by (simp add: run_shape_def)
    next
      case d
      then show ?thesis
        using ok slice_nonempty[of i ai a] slice_empty[of bj bj b] by (simp add: run_shape_def)
    next
      case n
      then show ?thesis
        using ok slice_nonempty[of j bj b] slice_empty[of ai ai a] by (simp add: run_shape_def)
    qed
  qed
  have s1: "list_all (run_shape a b) answer1"
    using Cons.prems(6) gap by (simp add: answer1_def)
  have c2: "gen_cover a answer2 = take (ai + sz) a"
    using c1 take_slice[of ai "ai + sz" a] by (simp add: answer2_def cover_snoc)
  have d2: "orig_cover b answer2 = take (bj + sz) b"
    using d1 take_slice[of bj "bj + sz" b] by (simp add: answer2_def cover_snoc)
  have eq: "sz \<noteq> 0 \<Longrightarrow> run_shape a b (''equal'', ai, ai + sz, bj, bj + sz)"
    using slice_match[OF g] ok slice_nonempty[of ai "ai + sz" a] by (simp add: run_shape_def)
  have s2: "list_all (run_shape a b) answer2"
    using s1 eq by (simp add: answer2_def)
  have st: "sorted_wrt block_before blocks" and gs: "\<forall>m\<in>set blocks. good_block a b m"
    using Cons.prems(1,2) by simp_all
  have nx: "\<forall>n\<in>set blocks. ai + sz \<le> fst n \<and> bj + sz \<le> fst (snd n)"
  proof
    fix n assume "n \<in> set blocks"
    then have "block_before (ai, bj, sz) n" using Cons.prems(1) m by simp
    then show "ai + sz \<le> fst n \<and> bj + sz \<le> fst (snd n)" by (cases n) simp
  qed
  show ?case unfolding u e using Cons.IH[OF st gs nx c2 d2 s2] .
qed

lemma get_opcodes_aligned: "aligned a b (get_opcodes a b)"
proof -
  let ?bs = "get_matching_blocks a b"
  obtain front where f: "?bs = front @ [(length a, length b, 0)]"
    by (simp add: get_matching_blocks_def Let_def)
  have e: "end_pos (0, 0) ?bs = (length a, length b)"
    unfolding f by (simp add: end_pos_snoc)
  have c: "sorted_wrt block_before ?bs" "\<forall>m\<in>set ?bs. good_block a b m"
    using get_matching_blocks_chain[of a b] by simp_all
  have "gen_cover a (opcodes_loop 0 0 ?bs []) = take (fst (end_pos (0, 0) ?bs)) a \<and>
        orig_cover b (opcodes_loop 0 0 ?bs []) = take (snd (end_pos (0, 0) ?bs)) b \<and>
        list_all (run_shape a b) (opcodes_loop 0 0 ?bs [])"
    by (rule opcodes_loop_aligned[OF c]) (simp_all add: gen_cover_def orig_cover_def)
  then show ?thesis by (simp add: aligned_def get_opcodes_def e)
qed

lemma aligned_proper: "aligned a b runs \<Longrightarrow> proper_runs a b runs"
  by (auto simp: aligned_def proper_runs_def list_all_iff run_shape_def)

lemma lcs_length_upper:
  "subseq zs xs \<Longrightarrow> subseq zs ys \<Longrightarrow> length zs \<le> lcs_length xs ys"
proof (induction xs ys arbitrary: zs rule: lcs_length.induct)
  case (1 ys)
  then show ?case by simp
next
  case (2 x xs)
  then show ?case by simp
next
  case (3 x xs y ys)
  show ?case
  proof (cases zs)
    case Nil
    then show ?thesis by simp
  next
    case (Cons z zs')
    show ?thesis
    proof (cases "x = y")
      case True
      have "subseq zs' xs" "subseq zs' ys"
        using "3.prems" Cons by (auto simp: subseq_Cons2_iff dest: subseq_Cons' split: if_splits)
      then have "length zs' \<le> lcs_length xs ys" using "3.IH"(1)[OF True] by simp
      then show ?thesis using True Cons by simp
    next
      case False
      show ?thesis
      proof (cases "z = x")
        case True
        then have "subseq zs ys" using "3.prems"(2) Cons False by (simp add: subseq_Cons2_iff)
        then have "length zs \<le> lcs_length (x # xs) ys"
          using "3.IH"(3)[OF False "3.prems"(1)] by simp
        then show ?thesis using False by simp
      next
        case z: False
        then have "subseq zs xs" using "3.prems"(1) Cons by (simp add: subseq_Cons2_iff)
        then have "length zs \<le> lcs_length xs (y # ys)"
          using "3.IH"(2)[OF False _ "3.prems"(2)] by simp
        then show ?thesis using False by simp
      qed
    qed
  qed
qed

lemma equal_cover_gen: "subseq (equal_cover a runs) (gen_cover a runs)"
proof (induction runs)
  case Nil
  then show ?case by (simp add: equal_cover_def gen_cover_def)
next
  case (Cons run runs)
  obtain tag i1 i2 j1 j2 where run: "run = (tag, i1, i2, j1, j2)" by (metis prod_cases5)
  have "subseq (if tag = ''equal'' then slice a i1 i2 else []) (slice a i1 i2)" by simp
  then have "subseq ((if tag = ''equal'' then slice a i1 i2 else []) @ equal_cover a runs)
                    (slice a i1 i2 @ gen_cover a runs)"
    using Cons.IH by (rule list_emb_append_mono)
  then show ?case by (simp add: run equal_cover_def gen_cover_def)
qed

lemma equal_cover_orig:
  "list_all (run_shape a b) runs \<Longrightarrow> subseq (equal_cover a runs) (orig_cover b runs)"
proof (induction runs)
  case Nil
  then show ?case by (simp add: equal_cover_def orig_cover_def)
next
  case (Cons run runs)
  obtain tag i1 i2 j1 j2 where run: "run = (tag, i1, i2, j1, j2)" by (metis prod_cases5)
  have "subseq (if tag = ''equal'' then slice a i1 i2 else []) (slice b j1 j2)"
    using Cons.prems by (auto simp: run run_shape_def)
  moreover have "subseq (equal_cover a runs) (orig_cover b runs)"
    using Cons by simp
  ultimately have "subseq ((if tag = ''equal'' then slice a i1 i2 else []) @ equal_cover a runs)
                    (slice b j1 j2 @ orig_cover b runs)"
    by (rule list_emb_append_mono)
  then show ?case by (simp add: run equal_cover_def orig_cover_def)
qed

lemma aligned_common:
  assumes "aligned a b runs"
  shows "subseq (equal_cover a runs) a \<and> subseq (equal_cover a runs) b \<and>
         length (equal_cover a runs) \<le> lcs_length a b"
proof -
  have 1: "subseq (equal_cover a runs) a"
    using equal_cover_gen[of a runs] assms by (simp add: aligned_def)
  have 2: "subseq (equal_cover a runs) b"
    using equal_cover_orig[of a b runs] assms by (simp add: aligned_def)
  show ?thesis using 1 2 lcs_length_upper by blast
qed

section \<open>Properties of the word-level differ\<close>

lemma split_from_nonempty: "\<forall>t\<in>set (split_from cur s). t \<noteq> []"
  by (induction s arbitrary: cur) auto

lemma str_split_nonempty: "\<forall>t\<in>set (str_split s). t \<noteq> []"
  by (simp add: str_split_def split_from_nonempty)

lemma str_join_nonempty:
  assumes "xs \<noteq> []" "\<forall>x\<in>set xs. x \<noteq> []"
  shows "str_join sep xs \<noteq> []"
proof (cases xs)
  case Nil
  then show ?thesis using assms by simp
next
  case (Cons x rest)
  then show ?thesis using assms by (cases rest) auto
qed

lemma slice_subset: "set (slice xs i j) \<subseteq> set xs"
  unfolding slice_def by (meson set_drop_subset set_take_subset subset_trans)

lemma join_slice_nonempty:
  assumes "\<forall>t\<in>set ts. t \<noteq> []" "slice ts i j \<noteq> []"
  shows "str_join '' '' (slice ts i j) \<noteq> []"
  using str_join_nonempty[OF assms(2)] assms(1) slice_subset[of ts i j] by blast

lemma span_nonempty: "span cls body \<noteq> []"
  by (simp add: span_def)

lemma diff_loop_pieces:
  assumes "\<forall>t\<in>set ta. t \<noteq> []" "\<forall>t\<in>set tb. t \<noteq> []" "proper_runs ta tb ops"
  shows "diff_loop ta tb ops (ao, bo) =
     (ao @ concat (map (gen_side ta) ops), bo @ concat (map (orig_side tb) ops))"
  using assms(3)
proof (induction ops arbitrary: ao bo)
  case Nil
  then show ?case by simp
next
  case (Cons run ops)
  obtain tag i1 i2 j1 j2 where run: "run = (tag, i1, i2, j1, j2)" by (metis prod_cases5)
  have rest: "proper_runs ta tb ops" using Cons.prems by (simp add: proper_runs_def)
  have ne: "tag = ''replace'' \<Longrightarrow>
      str_join '' '' (slice ta i1 i2) \<noteq> [] \<and> str_join '' '' (slice tb j1 j2) \<noteq> []"
    using Cons.prems run join_slice_nonempty[OF assms(1)] join_slice_nonempty[OF assms(2)]
    by (simp add: proper_runs_def)
  show ?case
    using Cons.IH[OF rest] ne
    by (simp add: run gen_side_def orig_side_def or_empty_def)
qed

lemma side_pieces_nonempty:
  assumes "\<forall>t\<in>set ta. t \<noteq> []" "\<forall>t\<in>set tb. t \<noteq> []" "proper_runs ta tb ops"
  shows "(\<forall>p\<in>set (concat (map (gen_side ta) ops)). p \<noteq> []) \<and>
         (\<forall>p\<in>set (concat (map (orig_side tb) ops)). p \<noteq> [])"
proof -
  have "\<forall>p\<in>set (gen_side ta run). p \<noteq> []" "\<forall>p\<in>set (orig_side tb run). p \<noteq> []"
    if "run \<in> set ops" for run
  proof -
    obtain tag i1 i2 j1 j2 where run: "run = (tag, i1, i2, j1, j2)" by (metis prod_cases5)
    have ne: "tag = ''equal'' \<Longrightarrow>
        str_join '' '' (slice ta i1 i2) \<noteq> [] \<and> str_join '' '' (slice tb j1 j2) \<noteq> []"
      using assms(3) that run join_slice_nonempty[OF assms(1)] join_slice_nonempty[OF assms(2)]
      by (auto simp: proper_runs_def)
    show "\<forall>p\<in>set (gen_side ta run). p \<noteq> []"
      using ne by (simp add: run gen_side_def span_nonempty)
    show "\<forall>p\<in>set (orig_side tb run). p \<noteq> []"
      using ne by (simp add: run orig_side_def span_nonempty)
  qed
  then show ?thesis by auto
qed

lemma filter_nonempty_id: "\<forall>p\<in>set ps. p \<noteq> [] \<Longrightarrow> filter (\<lambda>s. s \<noteq> []) ps = ps"
  by (induction ps) auto

lemma word_level_diff_html_marked:
  assumes "a \<noteq> []" "b \<noteq> []"
    "proper_runs (str_split a) (str_split b) (opc (str_split a) (str_split b))"
  shows "word_level_diff_html opc a b = marked_diff opc a b"
proof -
  let ?ta = "str_split a" and ?tb = "str_split b"
  have l: "diff_loop ?ta ?tb (opc ?ta ?tb) ([], []) =
      (concat (map (gen_side ?ta) (opc ?ta ?tb)), concat (map (orig_side ?tb) (opc ?ta ?tb)))"
    using diff_loop_pieces[OF str_split_nonempty str_split_nonempty assms(3), of "[]" "[]"] by simp
  have f: "filter (\<lambda>s. s \<noteq> []) (concat (map (gen_side ?ta) (opc ?ta ?tb)))
        = concat (map (gen_side ?ta) (opc ?ta ?tb))"
    "filter (\<lambda>s. s \<noteq> []) (concat (map (orig_side ?tb) (opc ?ta ?tb)))
        = concat (map (orig_side ?tb) (opc ?ta ?tb))"
    using side_pieces_nonempty[OF str_split_nonempty str_split_nonempty assms(3)]
    by (simp_all add: filter_nonempty_id)
  show ?thesis
    using assms(1,2) by (simp add: word_level_diff_html_def marked_diff_def Let_def l f)
qed

text \<open>
  The claim C6 as the specification has it, that the differ aligns the two token
  sequences by a longest common subsequence, fails for the texts \<open>p q r\<close> and
  \<open>q x r p\<close>: the library takes a longest matching block first, here \<open>p\<close>, and
  nothing is left to match on either side of it, so one token passes unmarked where the
  longest common subsequence \<open>q r\<close> has two.
\<close>

theorem word_level_diff_html_lcs_counterexample:
  \<open>diff_runs ''p q r'' ''q x r p''
     = [(''insert'', 0, 0, 0, 3), (''equal'', 0, 1, 3, 4), (''delete'', 1, 3, 4, 4)] \<and>
   length (equal_cover (str_split ''p q r'') (diff_runs ''p q r'' ''q x r p'')) = 1 \<and>
   lcs_length (str_split ''p q r'') (str_split ''q x r p'') = 2 \<and>
   word_level_diff_html get_opcodes ''p q r'' ''q x r p''
     = (''p <span class="error deleted-from-generated">q r</span>'',
        ''<span class="error added-to-original">q x r</span> p'')\<close>
  by code_simp

lemma example_diff:
  \<open>diff_runs ''a b c'' ''a x c''
     = [(''equal'', 0, 1, 0, 1), (''replace'', 1, 2, 1, 2), (''equal'', 2, 3, 2, 3)] \<and>
   marked_diff get_opcodes ''a b c'' ''a x c''
     = (''a <span class="error replace-generated">b</span> c'',
        ''a <span class="error replace-original">x</span> c'')\<close>
  by code_simp

text \<open>
  C6, amended: for two non-empty texts the differ splits both at whitespace and aligns
  the two token sequences with the library's matching blocks, the longest first and then
  the ranges to its left and to its right. The runs cover each token sequence, in order
  and without a gap; an equal run covers the same tokens on both sides, a replace run
  tokens on both sides, a delete run tokens of the generated text only and an insert run
  tokens of the original text only; the tokens of the equal runs are a common
  subsequence of the two texts, at most as long as a longest one. Each side is the pieces
  of its runs joined by single spaces: an equal run gives its tokens unmarked on both
  sides, a replace run gives its tokens in a \<open>replace-generated\<close> span on the generated
  side and in a \<open>replace-original\<close> span on the original side, a delete run gives a
  \<open>deleted-from-generated\<close> span on the generated side only, and an insert run gives an
  \<open>added-to-original\<close> span on the original side only. The texts \<open>a b c\<close> and \<open>a x c\<close>
  come out with only \<open>b\<close> and \<open>x\<close> marked.
\<close>

theorem word_level_diff_html_aligned:
  assumes "a \<noteq> []" "b \<noteq> []"
  shows "aligned (str_split a) (str_split b) (diff_runs a b) \<and>
         length (equal_cover (str_split a) (diff_runs a b))
           \<le> lcs_length (str_split a) (str_split b) \<and>
         word_level_diff_html get_opcodes a b = marked_diff get_opcodes a b"
proof -
  have al: "aligned (str_split a) (str_split b) (diff_runs a b)"
    unfolding diff_runs_def by (rule get_opcodes_aligned)
  have "proper_runs (str_split a) (str_split b) (get_opcodes (str_split a) (str_split b))"
    using aligned_proper[OF al] by (simp add: diff_runs_def)
  then have "word_level_diff_html get_opcodes a b = marked_diff get_opcodes a b"
    using assms by (rule word_level_diff_html_marked[rotated 2])
  then show ?thesis using al aligned_common[OF al] by simp
qed

theorem word_level_diff_html_aligned_witness:
  \<open>''a b c'' \<noteq> [] \<and> ''a x c'' \<noteq> [] \<and>
   aligned (str_split ''a b c'') (str_split ''a x c'') (diff_runs ''a b c'' ''a x c'') \<and>
   diff_runs ''a b c'' ''a x c''
     = [(''equal'', 0, 1, 0, 1), (''replace'', 1, 2, 1, 2), (''equal'', 2, 3, 2, 3)] \<and>
   word_level_diff_html get_opcodes ''a b c'' ''a x c''
     = (''a <span class="error replace-generated">b</span> c'',
        ''a <span class="error replace-original">x</span> c'')\<close>
proof -
  have n: "''a b c'' \<noteq> []" "''a x c'' \<noteq> []" by simp_all
  show ?thesis
    using n example_diff word_level_diff_html_aligned[OF n]
    by simp
qed

end
